theory Spec2Isabelle
  imports Main "HOL-Library.Monad_Syntax"
begin

section \<open>Tag extraction and tag-based filtering of EC2 instances\<close>

text \<open>
  The theory embeds three functions of \<^verbatim>\<open>awswrapper/ec2wrapper.py\<close>:
  \<^verbatim>\<open>get_tags_from_instance\<close>, \<^verbatim>\<open>are_any_filter_tags_on_instance\<close> and
  \<^verbatim>\<open>list_instances_without_tag\<close>. The remaining functions of the module forward
  their arguments to the provider's SDK and are not modelled.
\<close>

subsection \<open>Python values, errors and the provider's records\<close>

text \<open>
  A value stored under a dictionary key is either \<^verbatim>\<open>None\<close> or a string. The
  exceptions that the three functions can raise on such values all come from
  \<^verbatim>\<open>re.search\<close>: \<^verbatim>\<open>TypeError\<close> for an argument that is not a string and
  \<^verbatim>\<open>re.error\<close> for a pattern that does not compile.
\<close>

datatype pyval = PyNone | PyStr string

datatype py_error = TypeError | ReError

text \<open>
  The source reads \<^verbatim>\<open>tag['Key']\<close>, \<^verbatim>\<open>tag['Value']\<close>,
  \<^verbatim>\<open>instance['InstanceId']\<close>, \<^verbatim>\<open>reservation['Instances']\<close> and
  \<^verbatim>\<open>ec2_instances['Reservations']\<close> by subscript, and tests
  \<^verbatim>\<open>"Tags" in instance\<close> before reading the tags. The records follow that: a key
  read by subscript is a field, the key whose presence is tested is an optional field.
  A tag's value may be \<^verbatim>\<open>None\<close>, which the source tests for.
\<close>

record tag =
  Key :: string
  Value :: pyval

record ec2_instance =
  InstanceId :: string
  Tags :: "tag list option"

record reservation =
  Instances :: "ec2_instance list"

record ec2_instances =
  Reservations :: "reservation list"

text \<open>The dictionary built by \<^verbatim>\<open>get_tags_from_instance\<close>: tag name to tag value.\<close>

type_synonym tagmap = "string \<rightharpoonup> pyval"

text \<open>
  The filter criteria are a dictionary from tag name to pattern. The source iterates
  over its keys, and a raised exception ends the iteration, so the order of the keys
  matters: the dictionary is an association list in iteration order.
\<close>

type_synonym tags_filter = "(string \<times> pyval) list"

text \<open>The dictionary appended to the result for an instance without the tags.\<close>

record instance_data =
  data_InstanceId :: string
  data_Name :: pyval

subsection \<open>The regular-expression engine\<close>

text \<open>
  Python's \<^verbatim>\<open>re\<close> module is not part of the repository. It is a parameter of the
  model: an engine maps a pattern string to \<open>None\<close> when the pattern does not
  compile, and otherwise to the predicate that holds of the strings in which
  \<^verbatim>\<open>re.search\<close> finds a match. Every general theorem below holds for every engine.
\<close>

type_synonym regex_engine = "string \<Rightarrow> (string \<Rightarrow> bool) option"

text \<open>
  \<^verbatim>\<open>re.search(pattern, string)\<close>: the pattern is checked and compiled first, then
  the subject is checked, then the search runs. The result is whether a match object
  was returned (a match object is always true in a boolean context).
\<close>

definition re_search :: "regex_engine \<Rightarrow> pyval \<Rightarrow> pyval \<Rightarrow> py_error + bool" where
  "re_search rx pattern s =
     (case pattern of
        PyNone \<Rightarrow> Inl TypeError
      | PyStr p \<Rightarrow>
          (case rx p of
             None \<Rightarrow> Inl ReError
           | Some m \<Rightarrow>
               (case s of
                  PyNone \<Rightarrow> Inl TypeError
                | PyStr t \<Rightarrow> Inr (m t))))"

text \<open>Truth value of a Python value in a condition.\<close>

definition truthy :: "pyval \<Rightarrow> bool" where
  "truthy v = (case v of PyNone \<Rightarrow> False | PyStr s \<Rightarrow> s \<noteq> [])"

subsection \<open>A small engine for running the model\<close>

text \<open>
  To evaluate the model on concrete inputs, \<open>frag_re\<close> implements the search for a
  fragment of the pattern syntax: an optional leading \<^verbatim>\<open>^\<close>, then literal
  characters and \<^verbatim>\<open>.\<close>, each optionally followed by \<^verbatim>\<open>*\<close>, then an optional
  trailing \<^verbatim>\<open>$\<close>. On this fragment it follows \<^verbatim>\<open>re.search\<close> without flags:
  \<^verbatim>\<open>.\<close> matches any character but a newline, and \<^verbatim>\<open>$\<close> matches at the end of
  the string or before a newline that ends it. It refuses every other pattern, among
  them the ill-formed \<^verbatim>\<open>(\<close> and \<^verbatim>\<open>*\<close>.
\<close>

datatype atom = Lit char | Dot

definition special :: "char \<Rightarrow> bool" where
  "special c = (c \<in> set (''.^$*+?{}[]|()'' @ [CHR 0x5C]))"

fun parse_items :: "string \<Rightarrow> (atom \<times> bool) list option" where
  "parse_items [] = Some []"
| "parse_items (c # cs) =
     (if special c \<and> c \<noteq> CHR ''.'' then None
      else
        (let a = (if c = CHR ''.'' then Dot else Lit c) in
         case cs of
           [] \<Rightarrow> Some [(a, False)]
         | d # rest \<Rightarrow>
             if d = CHR ''*'' then map_option ((#) (a, True)) (parse_items rest)
             else map_option ((#) (a, False)) (parse_items cs)))"

fun atom_ok :: "atom \<Rightarrow> char \<Rightarrow> bool" where
  "atom_ok Dot c = (c \<noteq> CHR 0x0A)"
| "atom_ok (Lit d) c = (c = d)"

fun match_here :: "(atom \<times> bool) list \<Rightarrow> bool \<Rightarrow> string \<Rightarrow> bool" where
  "match_here [] dollar s = (if dollar then s = [] \<or> s = [CHR 0x0A] else True)"
| "match_here ((a, star) # items) dollar s =
     (if star then
        list_ex (\<lambda>n. match_here items dollar (drop n s))
          [0..<Suc (length (takeWhile (atom_ok a) s))]
      else
        (case s of
           [] \<Rightarrow> False
         | c # cs \<Rightarrow> atom_ok a c \<and> match_here items dollar cs))"

definition frag_re :: regex_engine where
  "frag_re p =
     (let anchored = (p \<noteq> [] \<and> hd p = CHR ''^'');
          p1 = (if anchored then tl p else p);
          dollar = (p1 \<noteq> [] \<and> last p1 = CHR ''$'');
          p2 = (if dollar then butlast p1 else p1)
      in case parse_items p2 of
           None \<Rightarrow> None
         | Some items \<Rightarrow>
             Some (\<lambda>s. if anchored then match_here items dollar s
                        else list_ex (\<lambda>n. match_here items dollar (drop n s))
                               [0..<Suc (length s)]))"

subsection \<open>get_tags_from_instance\<close>

text \<open>
  The loop over \<^verbatim>\<open>instance['Tags']\<close>, threading the dictionary under
  construction: a tag whose value is not \<^verbatim>\<open>None\<close> is stored under its name,
  replacing an earlier entry of that name.
\<close>

fun get_tags_loop :: "tag list \<Rightarrow> tagmap \<Rightarrow> tagmap" where
  "get_tags_loop [] instances_data_tags = instances_data_tags"
| "get_tags_loop (t # ts) instances_data_tags =
     (let tag_name = Key t;
          tag_value = Value t
      in get_tags_loop ts
           (if tag_value \<noteq> PyNone then instances_data_tags(tag_name \<mapsto> tag_value)
            else instances_data_tags))"

definition get_tags_from_instance :: "ec2_instance \<Rightarrow> tagmap" where
  "get_tags_from_instance inst =
     (case Tags inst of
        None \<Rightarrow> Map.empty
      | Some ts \<Rightarrow> get_tags_loop ts Map.empty)"

text \<open>The tag pairs of an instance; none when the record has no tags field.\<close>

definition tags_of :: "ec2_instance \<Rightarrow> tag list" where
  "tags_of inst = (case Tags inst of None \<Rightarrow> [] | Some ts \<Rightarrow> ts)"

subsection \<open>are_any_filter_tags_on_instance\<close>

text \<open>\<^verbatim>\<open>tags_filter.get(filter_tag)\<close>: the value, or \<^verbatim>\<open>None\<close> for a missing key.\<close>

definition filter_get :: "tags_filter \<Rightarrow> string \<Rightarrow> pyval" where
  "filter_get tf k = (case map_of tf k of None \<Rightarrow> PyNone | Some p \<Rightarrow> p)"

text \<open>\<^verbatim>\<open>instances_tags.get(filter_tag, '')\<close>: the value, or the empty string.\<close>

definition tags_get :: "tagmap \<Rightarrow> string \<Rightarrow> pyval" where
  "tags_get instances_tags k = (case instances_tags k of None \<Rightarrow> PyStr [] | Some v \<Rightarrow> v)"

text \<open>
  The loop over \<^verbatim>\<open>tags_filter.keys()\<close>. The search runs before the test of the
  tag's value, so its exception is raised also for a tag that is missing or empty.
\<close>

fun filter_tags_loop ::
  "regex_engine \<Rightarrow> tags_filter \<Rightarrow> tagmap \<Rightarrow> string list \<Rightarrow> py_error + bool" where
  "filter_tags_loop rx tf instances_tags [] = Inr False"
| "filter_tags_loop rx tf instances_tags (filter_tag # rest) =
     (let filtered_tag_in_instance = tags_get instances_tags filter_tag;
          pattern = filter_get tf filter_tag
      in case re_search rx pattern filtered_tag_in_instance of
           Inl e \<Rightarrow> Inl e
         | Inr tags_values_match \<Rightarrow>
             if truthy filtered_tag_in_instance \<and> tags_values_match then Inr True
             else filter_tags_loop rx tf instances_tags rest)"

definition are_any_filter_tags_on_instance ::
  "regex_engine \<Rightarrow> tags_filter \<Rightarrow> tagmap \<Rightarrow> py_error + bool" where
  "are_any_filter_tags_on_instance rx tf instances_tags =
     filter_tags_loop rx tf instances_tags (map fst tf)"

subsection \<open>list_instances_without_tag\<close>

text \<open>The dictionary built for an instance that carries none of the filter tags.\<close>

definition instance_data_of :: "ec2_instance \<Rightarrow> tagmap \<Rightarrow> instance_data" where
  "instance_data_of inst instance_tags =
     \<lparr>data_InstanceId = InstanceId inst,
      data_Name = (case instance_tags ''Name'' of Some v \<Rightarrow> v | None \<Rightarrow> PyStr [])\<rparr>"

text \<open>
  The inner loop over \<^verbatim>\<open>reservation['Instances']\<close> and the outer loop over
  \<^verbatim>\<open>ec2_instances['Reservations']\<close>, threading the result list. An exception of
  the filter ends both loops.
\<close>

fun instances_loop ::
  "regex_engine \<Rightarrow> tags_filter \<Rightarrow> ec2_instance list \<Rightarrow> instance_data list
     \<Rightarrow> py_error + instance_data list" where
  "instances_loop rx tf [] instances_without_tags = Inr instances_without_tags"
| "instances_loop rx tf (inst # rest) instances_without_tags =
     (let instance_tags = get_tags_from_instance inst in
      case are_any_filter_tags_on_instance rx tf instance_tags of
        Inl e \<Rightarrow> Inl e
      | Inr b \<Rightarrow>
          instances_loop rx tf rest
            (if \<not> b then instances_without_tags @ [instance_data_of inst instance_tags]
             else instances_without_tags))"

fun reservations_loop ::
  "regex_engine \<Rightarrow> tags_filter \<Rightarrow> reservation list \<Rightarrow> instance_data list
     \<Rightarrow> py_error + instance_data list" where
  "reservations_loop rx tf [] instances_without_tags = Inr instances_without_tags"
| "reservations_loop rx tf (r # rest) instances_without_tags =
     (case instances_loop rx tf (Instances r) instances_without_tags of
        Inl e \<Rightarrow> Inl e
      | Inr acc \<Rightarrow> reservations_loop rx tf rest acc)"

definition list_instances_without_tag ::
  "regex_engine \<Rightarrow> tags_filter \<Rightarrow> ec2_instances \<Rightarrow> py_error + instance_data list" where
  "list_instances_without_tag rx tf resp = reservations_loop rx tf (Reservations resp) []"

subsection \<open>The filter in the words of the specification\<close>

text \<open>
  A criterion \<open>(k, p)\<close> matches when the instance has a non-empty value for the tag
  \<open>k\<close> and the search for \<open>p\<close> in that value succeeds. An instance is tagged
  when some criterion of the filter matches.
\<close>

definition criterion_matches :: "regex_engine \<Rightarrow> tagmap \<Rightarrow> string \<Rightarrow> pyval \<Rightarrow> bool" where
  "criterion_matches rx instances_tags k p =
     (case instances_tags k of
        Some (PyStr v) \<Rightarrow>
          v \<noteq> [] \<and>
          (case p of
             PyStr ps \<Rightarrow> (case rx ps of Some m \<Rightarrow> m v | None \<Rightarrow> False)
           | PyNone \<Rightarrow> False)
      | _ \<Rightarrow> False)"

definition any_criterion_matches :: "regex_engine \<Rightarrow> tags_filter \<Rightarrow> tagmap \<Rightarrow> bool" where
  "any_criterion_matches rx tf instances_tags =
     list_ex (\<lambda>(k, p). criterion_matches rx instances_tags k p) tf"

text \<open>Every pattern of the filter is a string that the engine compiles.\<close>

definition patterns_compile :: "regex_engine \<Rightarrow> tags_filter \<Rightarrow> bool" where
  "patterns_compile rx tf =
     list_all (\<lambda>(k, p). case p of PyStr ps \<Rightarrow> rx ps \<noteq> None | PyNone \<Rightarrow> False) tf"

text \<open>The instances of a response, in the order in which the two loops visit them.\<close>

definition all_instances :: "ec2_instances \<Rightarrow> ec2_instance list" where
  "all_instances resp = concat (map Instances (Reservations resp))"

text \<open>The dictionary emitted for an instance, from the instance alone.\<close>

definition summary_of :: "ec2_instance \<Rightarrow> instance_data" where
  "summary_of inst = instance_data_of inst (get_tags_from_instance inst)"

subsection \<open>The same functions over a store of objects\<close>

text \<open>
  Whether a call changes its arguments cannot be said of the functions above, which
  have no state. The second model keeps Python's objects in a store: a list of cells,
  an address being an index. Every dictionary and every list is a cell, those of the
  input as well as those a function creates: the response, its list of reservations,
  each reservation, its list of instances, each instance, its list of tags, each tag
  and the filter are dictionaries and lists like any other. A value held in a
  dictionary or a list is \<^verbatim>\<open>None\<close>, a string, or the address of another cell.
\<close>

type_synonym addr = nat

datatype val = VNone | VStr string | VRef addr

datatype cell = PyDict "(string \<times> val) list" | PyList "val list"

type_synonym store = "cell list"

text \<open>
  Reading an address (\<open>None\<close> for an address the store does not hold) and creating
  an object, which goes to the end of the store.
\<close>

definition cell_at :: "store \<Rightarrow> addr \<Rightarrow> cell option" where
  "cell_at s a = (if a < length s then Some (s ! a) else None)"

definition alloc :: "cell \<Rightarrow> store \<Rightarrow> addr \<times> store" where
  "alloc c s = (length s, s @ [c])"

text \<open>Assignment to a key of a dictionary: an existing entry is replaced in place.\<close>

fun dict_set :: "(string \<times> 'v) list \<Rightarrow> string \<Rightarrow> 'v \<Rightarrow> (string \<times> 'v) list" where
  "dict_set [] k v = [(k, v)]"
| "dict_set ((k', v') # kvs) k v =
     (if k' = k then (k, v) # kvs else (k', v') # dict_set kvs k v)"

text \<open>
  \<^verbatim>\<open>d[key] = v\<close> and \<^verbatim>\<open>l.append(x)\<close> write to the cell at the address of their
  target, whichever object that is: an object of the input is changed in the same way
  as one the function has created. The result is \<open>None\<close> where Python raises: the
  target is not a dictionary (not a list), or the key is not a string.
\<close>

definition st_setitem :: "store \<Rightarrow> addr \<Rightarrow> val \<Rightarrow> val \<Rightarrow> store option" where
  "st_setitem s d key v =
     (case (cell_at s d, key) of
        (Some (PyDict kvs), VStr k) \<Rightarrow> Some (s[d := PyDict (dict_set kvs k v)])
      | _ \<Rightarrow> None)"

definition st_append :: "store \<Rightarrow> addr \<Rightarrow> val \<Rightarrow> store option" where
  "st_append s l x =
     (case cell_at s l of
        Some (PyList xs) \<Rightarrow> Some (s[l := PyList (xs @ [x])])
      | _ \<Rightarrow> None)"

text \<open>
  \<^verbatim>\<open>d[k]\<close>, \<^verbatim>\<open>k in d\<close> and the elements of the list a value refers to. The
  result is \<open>None\<close> where Python raises (the key is missing, the object is of another
  kind); such records are outside the provider's format.
\<close>

definition st_getitem :: "store \<Rightarrow> addr \<Rightarrow> string \<Rightarrow> val option" where
  "st_getitem s d k =
     (case cell_at s d of
        Some (PyDict kvs) \<Rightarrow> map_of kvs k
      | _ \<Rightarrow> None)"

definition st_contains :: "store \<Rightarrow> addr \<Rightarrow> string \<Rightarrow> bool option" where
  "st_contains s d k =
     (case cell_at s d of
        Some (PyDict kvs) \<Rightarrow> Some (map_of kvs k \<noteq> None)
      | _ \<Rightarrow> None)"

definition st_items :: "store \<Rightarrow> val \<Rightarrow> val list option" where
  "st_items s v =
     (case v of
        VRef l \<Rightarrow> (case cell_at s l of Some (PyList xs) \<Rightarrow> Some xs | _ \<Rightarrow> None)
      | _ \<Rightarrow> None)"

text \<open>
  \<^verbatim>\<open>get_tags_from_instance\<close> over the store, statement by statement: it creates
  the dictionary, tests \<^verbatim>\<open>"Tags" in instance\<close>, reads each tag's key and value and
  assigns to the new dictionary. It returns the address of the dictionary and the
  store it has reached.
\<close>

fun st_get_tags_loop :: "val list \<Rightarrow> addr \<Rightarrow> store \<Rightarrow> store option" where
  "st_get_tags_loop [] instances_data_tags s = Some s"
| "st_get_tags_loop (tag # rest) instances_data_tags s =
     (case tag of
        VRef t \<Rightarrow>
          do {
            tag_name \<leftarrow> st_getitem s t ''Key'';
            tag_value \<leftarrow> st_getitem s t ''Value'';
            s' \<leftarrow> (if tag_value \<noteq> VNone
                   then st_setitem s instances_data_tags tag_name tag_value
                   else Some s);
            st_get_tags_loop rest instances_data_tags s'
          }
      | _ \<Rightarrow> None)"

definition st_get_tags_from_instance :: "store \<Rightarrow> addr \<Rightarrow> (addr \<times> store) option" where
  "st_get_tags_from_instance s inst =
     (let (instances_data_tags, s1) = alloc (PyDict []) s in
      do {
        has_tags \<leftarrow> st_contains s1 inst ''Tags'';
        if has_tags then
          do {
            tags_ref \<leftarrow> st_getitem s1 inst ''Tags'';
            tags \<leftarrow> st_items s1 tags_ref;
            s2 \<leftarrow> st_get_tags_loop tags instances_data_tags s1;
            Some (instances_data_tags, s2)
          }
        else Some (instances_data_tags, s1)
      })"

text \<open>
  Values that are not addresses, as values of the first model and back, and a
  dictionary of such values read from the store as an association list.
\<close>

fun pyval_of :: "val \<Rightarrow> pyval option" where
  "pyval_of VNone = Some PyNone"
| "pyval_of (VStr x) = Some (PyStr x)"
| "pyval_of (VRef a) = None"

fun val_of :: "pyval \<Rightarrow> val" where
  "val_of PyNone = VNone"
| "val_of (PyStr x) = VStr x"

definition dict_at :: "store \<Rightarrow> addr \<Rightarrow> (string \<times> pyval) list option" where
  "dict_at s a =
     (case cell_at s a of
        Some (PyDict kvs) \<Rightarrow> those (map (\<lambda>(k, v). map_option (Pair k) (pyval_of v)) kvs)
      | _ \<Rightarrow> None)"

text \<open>
  \<^verbatim>\<open>are_any_filter_tags_on_instance\<close> has no assignment but to its local
  variables: over the store it reads the filter and the tag dictionary and answers as
  the function of the first model.
\<close>

definition st_are_any_filter_tags_on_instance ::
  "regex_engine \<Rightarrow> store \<Rightarrow> addr \<Rightarrow> addr \<Rightarrow> (py_error + bool) option" where
  "st_are_any_filter_tags_on_instance rx s tags_filter instances_tags =
     do {
       tf \<leftarrow> dict_at s tags_filter;
       tags \<leftarrow> dict_at s instances_tags;
       Some (are_any_filter_tags_on_instance rx tf (map_of tags))
     }"

text \<open>
  \<^verbatim>\<open>list_instances_without_tag\<close> over the store, statement by statement. In each
  round the tag dictionary and \<^verbatim>\<open>instance_data\<close> are created; for an instance
  without the tags, \<^verbatim>\<open>instance_data\<close> is assigned its two entries and its address
  is appended to the result list. A raised exception is returned together with the
  store reached.
\<close>

fun st_instances_loop ::
  "regex_engine \<Rightarrow> addr \<Rightarrow> val list \<Rightarrow> addr \<Rightarrow> store \<Rightarrow> ((py_error + unit) \<times> store) option" where
  "st_instances_loop rx tags_filter [] instances_without_tags s = Some (Inr (), s)"
| "st_instances_loop rx tags_filter (x # rest) instances_without_tags s =
     (case x of
        VRef inst \<Rightarrow>
          do {
            (instance_tags, s1) \<leftarrow> st_get_tags_from_instance s inst;
            (instance_data, s2) \<leftarrow> Some (alloc (PyDict []) s1);
            answer \<leftarrow> st_are_any_filter_tags_on_instance rx s2 tags_filter instance_tags;
            (case answer of
               Inl e \<Rightarrow> Some (Inl e, s2)
             | Inr b \<Rightarrow>
                 if \<not> b then
                   do {
                     instance_id \<leftarrow> st_getitem s2 inst ''InstanceId'';
                     s3 \<leftarrow> st_setitem s2 instance_data (VStr ''InstanceId'') instance_id;
                     has_name \<leftarrow> st_contains s3 instance_tags ''Name'';
                     name \<leftarrow> (if has_name then st_getitem s3 instance_tags ''Name''
                              else Some (VStr []));
                     s4 \<leftarrow> st_setitem s3 instance_data (VStr ''Name'') name;
                     s5 \<leftarrow> st_append s4 instances_without_tags (VRef instance_data);
                     st_instances_loop rx tags_filter rest instances_without_tags s5
                   }
                 else st_instances_loop rx tags_filter rest instances_without_tags s2)
          }
      | _ \<Rightarrow> None)"

fun st_reservations_loop ::
  "regex_engine \<Rightarrow> addr \<Rightarrow> val list \<Rightarrow> addr \<Rightarrow> store \<Rightarrow> ((py_error + unit) \<times> store) option" where
  "st_reservations_loop rx tags_filter [] instances_without_tags s = Some (Inr (), s)"
| "st_reservations_loop rx tags_filter (x # rest) instances_without_tags s =
     (case x of
        VRef reservation \<Rightarrow>
          do {
            instances_ref \<leftarrow> st_getitem s reservation ''Instances'';
            instances \<leftarrow> st_items s instances_ref;
            (outcome, s') \<leftarrow> st_instances_loop rx tags_filter instances instances_without_tags s;
            (case outcome of
               Inl e \<Rightarrow> Some (Inl e, s')
             | Inr u \<Rightarrow> st_reservations_loop rx tags_filter rest instances_without_tags s')
          }
      | _ \<Rightarrow> None)"

definition st_list_instances_without_tag ::
  "regex_engine \<Rightarrow> store \<Rightarrow> addr \<Rightarrow> addr \<Rightarrow> ((py_error + addr) \<times> store) option" where
  "st_list_instances_without_tag rx s tags_filter ec2_instances =
     (let (instances_without_tags, s1) = alloc (PyList []) s in
      do {
        reservations_ref \<leftarrow> st_getitem s1 ec2_instances ''Reservations'';
        reservations \<leftarrow> st_items s1 reservations_ref;
        (outcome, s') \<leftarrow> st_reservations_loop rx tags_filter reservations instances_without_tags s1;
        (case outcome of
           Inl e \<Rightarrow> Some (Inl e, s')
         | Inr u \<Rightarrow> Some (Inr instances_without_tags, s'))
      })"


text \<open>
  Reading the input back from the store as the records of the first model: a tag, an
  instance, a reservation and the response. Keys that the functions do not read are
  ignored.
\<close>

fun str_of :: "val \<Rightarrow> string option" where
  "str_of (VStr x) = Some x"
| "str_of _ = None"

definition tag_at :: "store \<Rightarrow> val \<Rightarrow> tag option" where
  "tag_at s v =
     (case v of
        VRef t \<Rightarrow>
          do {
            k \<leftarrow> st_getitem s t ''Key'';
            name \<leftarrow> str_of k;
            x \<leftarrow> st_getitem s t ''Value'';
            pv \<leftarrow> pyval_of x;
            Some \<lparr>Key = name, Value = pv\<rparr>
          }
      | _ \<Rightarrow> None)"

definition instance_at :: "store \<Rightarrow> addr \<Rightarrow> ec2_instance option" where
  "instance_at s a =
     do {
       i \<leftarrow> st_getitem s a ''InstanceId'';
       iid \<leftarrow> str_of i;
       has_tags \<leftarrow> st_contains s a ''Tags'';
       if has_tags then
         do {
           r \<leftarrow> st_getitem s a ''Tags'';
           xs \<leftarrow> st_items s r;
           ts \<leftarrow> those (map (tag_at s) xs);
           Some \<lparr>InstanceId = iid, Tags = Some ts\<rparr>
         }
       else Some \<lparr>InstanceId = iid, Tags = None\<rparr>
     }"

definition instance_ref_at :: "store \<Rightarrow> val \<Rightarrow> ec2_instance option" where
  "instance_ref_at s v = (case v of VRef a \<Rightarrow> instance_at s a | _ \<Rightarrow> None)"

definition reservation_at :: "store \<Rightarrow> val \<Rightarrow> reservation option" where
  "reservation_at s v =
     (case v of
        VRef a \<Rightarrow>
          do {
            r \<leftarrow> st_getitem s a ''Instances'';
            xs \<leftarrow> st_items s r;
            insts \<leftarrow> those (map (instance_ref_at s) xs);
            Some \<lparr>Instances = insts\<rparr>
          }
      | _ \<Rightarrow> None)"

definition response_at :: "store \<Rightarrow> addr \<Rightarrow> ec2_instances option" where
  "response_at s a =
     do {
       r \<leftarrow> st_getitem s a ''Reservations'';
       xs \<leftarrow> st_items s r;
       rs \<leftarrow> those (map (reservation_at s) xs);
       Some \<lparr>Reservations = rs\<rparr>
     }"

text \<open>
  Reading the output back: the result list at an address as the list of its
  dictionaries, and the dictionary that stands for an \<open>instance_data\<close> record.
\<close>

definition dict_ref_at :: "store \<Rightarrow> val \<Rightarrow> (string \<times> pyval) list option" where
  "dict_ref_at s v = (case v of VRef a \<Rightarrow> dict_at s a | _ \<Rightarrow> None)"

definition result_at :: "store \<Rightarrow> addr \<Rightarrow> (string \<times> pyval) list list option" where
  "result_at s a =
     (case cell_at s a of
        Some (PyList ys) \<Rightarrow> those (map (dict_ref_at s) ys)
      | _ \<Rightarrow> None)"

definition data_alist :: "instance_data \<Rightarrow> (string \<times> pyval) list" where
  "data_alist d = [(''InstanceId'', PyStr (data_InstanceId d)), (''Name'', data_Name d)]"

text \<open>
  The outcome of a call over the store agrees with the outcome of the function of the
  first model: the same exception, or the address of a list that holds the same
  dictionaries.
\<close>

definition agrees ::
  "store \<Rightarrow> py_error + addr \<Rightarrow> py_error + instance_data list \<Rightarrow> bool" where
  "agrees s out expected =
     (case expected of
        Inl e \<Rightarrow> out = Inl e
      | Inr res \<Rightarrow>
          (case out of
             Inl e \<Rightarrow> False
           | Inr r \<Rightarrow> result_at s r = Some (map data_alist res)))"

text \<open>
  An association list of the first model as the content of a dictionary cell, and a
  store that still holds every cell of another.
\<close>

definition enc :: "(string \<times> pyval) list \<Rightarrow> (string \<times> val) list" where
  "enc al = map (\<lambda>(k, pv). (k, val_of pv)) al"

definition keeps :: "store \<Rightarrow> store \<Rightarrow> bool" where
  "keeps s s' = (\<forall>a c. cell_at s a = Some c \<longrightarrow> cell_at s' a = Some c)"

subsection \<open>Sample inputs\<close>

text \<open>Instances, responses and filters on which the theorems are run.\<close>

definition inst_staging :: ec2_instance where
  "inst_staging =
     \<lparr>InstanceId = ''i-0001'',
      Tags = Some [\<lparr>Key = ''Environment'', Value = PyStr ''staging''\<rparr>,
                   \<lparr>Key = ''Name'', Value = PyStr ''web-1''\<rparr>]\<rparr>"

definition inst_prod :: ec2_instance where
  "inst_prod =
     \<lparr>InstanceId = ''i-0002'',
      Tags = Some [\<lparr>Key = ''Name'', Value = PyStr ''db-1''\<rparr>,
                   \<lparr>Key = ''Environment'', Value = PyStr ''prod''\<rparr>]\<rparr>"

definition inst_bare :: ec2_instance where
  "inst_bare = \<lparr>InstanceId = ''i-0003'', Tags = None\<rparr>"

definition inst_team :: ec2_instance where
  "inst_team =
     \<lparr>InstanceId = ''i-0004'',
      Tags = Some [\<lparr>Key = ''Team'', Value = PyStr ''infra''\<rparr>]\<rparr>"

definition sample_response :: ec2_instances where
  "sample_response =
     \<lparr>Reservations = [\<lparr>Instances = [inst_staging, inst_prod]\<rparr>,
                       \<lparr>Instances = [inst_bare, inst_team]\<rparr>]\<rparr>"

definition abc_response :: ec2_instances where
  "abc_response = \<lparr>Reservations = [\<lparr>Instances = [inst_staging, inst_prod, inst_bare]\<rparr>]\<rparr>"

definition env_filter :: tags_filter where
  "env_filter = [(''Environment'', PyStr ''^prod$'')]"

definition owner_team_filter :: tags_filter where
  "owner_team_filter = [(''Owner'', PyStr ''.*''), (''Team'', PyStr ''.*'')]"

definition inst_dup :: ec2_instance where
  "inst_dup =
     \<lparr>InstanceId = ''i-0005'',
      Tags = Some [\<lparr>Key = ''Name'', Value = PyStr ''web-1''\<rparr>,
                   \<lparr>Key = ''Name'', Value = PyStr ''web-2''\<rparr>,
                   \<lparr>Key = ''Name'', Value = PyNone\<rparr>]\<rparr>"


definition bare_response :: ec2_instances where
  "bare_response = \<lparr>Reservations = [\<lparr>Instances = [inst_bare]\<rparr>]\<rparr>"


definition null_filter :: tags_filter where
  "null_filter = [(''Owner'', PyNone)]"

definition unbalanced_filter :: tags_filter where
  "unbalanced_filter = [(''Owner'', PyStr ''('')]"


definition store_response :: ec2_instances where
  "store_response = \<lparr>Reservations = [\<lparr>Instances = [inst_staging, inst_prod]\<rparr>, \<lparr>Instances = [inst_bare]\<rparr>]\<rparr>"

definition sample_store :: store where
  "sample_store =
     [PyDict [(''Environment'', VStr ''^prod$'')],
      PyDict [(''Key'', VStr ''Environment''), (''Value'', VStr ''staging'')],
      PyDict [(''Key'', VStr ''Name''), (''Value'', VStr ''web-1'')],
      PyList [VRef 1, VRef 2],
      PyDict [(''InstanceId'', VStr ''i-0001''), (''Tags'', VRef 3)],
      PyDict [(''Key'', VStr ''Name''), (''Value'', VStr ''db-1'')],
      PyDict [(''Key'', VStr ''Environment''), (''Value'', VStr ''prod'')],
      PyList [VRef 5, VRef 6],
      PyDict [(''InstanceId'', VStr ''i-0002''), (''Tags'', VRef 7)],
      PyDict [(''InstanceId'', VStr ''i-0003'')],
      PyList [VRef 4, VRef 8],
      PyDict [(''Instances'', VRef 10)],
      PyList [VRef 9],
      PyDict [(''Instances'', VRef 12)],
      PyList [VRef 11, VRef 13],
      PyDict [(''Reservations'', VRef 14)]]"

section \<open>Properties\<close>

subsection \<open>The tag dictionary and the filter loop\<close>

lemma get_tags_loop_lookup:
  "get_tags_loop ts m k =
     (case filter (\<lambda>t. Key t = k \<and> Value t \<noteq> PyNone) ts of
        [] \<Rightarrow> m k
      | u # us \<Rightarrow> Some (Value (last (u # us))))"
proof (induction ts arbitrary: m)
  case Nil
  then show ?case by simp
next
  case (Cons t ts)
  show ?case
  proof (cases "Key t = k \<and> Value t \<noteq> PyNone")
    case True
    then show ?thesis
      by (simp add: Cons.IH split: list.splits)
  next
    case False
    then show ?thesis
      by (cases "Value t = PyNone") (auto simp: Cons.IH split: list.splits)
  qed
qed

lemma get_tags_loop_no_None:
  "\<forall>k. m k \<noteq> Some PyNone \<Longrightarrow> get_tags_loop ts m k \<noteq> Some PyNone"
  by (induction ts arbitrary: m) (simp_all add: Let_def)

lemma get_tags_from_instance_no_None: "get_tags_from_instance inst k \<noteq> Some PyNone"
  by (simp add: get_tags_from_instance_def get_tags_loop_no_None split: option.splits)

lemma re_search_Inr:
  "re_search rx p v = Inr m \<Longrightarrow> \<exists>ps f t. p = PyStr ps \<and> rx ps = Some f \<and> v = PyStr t \<and> m = f t"
  by (cases p; cases v; simp add: re_search_def split: option.splits)

lemma step_test:
  assumes "re_search rx p (tags_get tags k) = Inr m"
  shows "(truthy (tags_get tags k) \<and> m) = criterion_matches rx tags k p"
proof -
  from re_search_Inr [OF assms] obtain ps f t
    where p: "p = PyStr ps" and f: "rx ps = Some f" and t: "tags_get tags k = PyStr t" and m: "m = f t"
    by blast
  show ?thesis
  proof (cases "tags k")
    case None
    with t have "t = []" by (simp add: tags_get_def)
    with None t show ?thesis by (simp add: criterion_matches_def truthy_def)
  next
    case (Some v)
    with t have "v = PyStr t" by (simp add: tags_get_def)
    with Some t p f m show ?thesis by (simp add: criterion_matches_def truthy_def)
  qed
qed

lemma filter_tags_loop_Inr:
  "filter_tags_loop rx tf tags ks = Inr b \<Longrightarrow>
     b = (\<exists>k\<in>set ks. criterion_matches rx tags k (filter_get tf k))"
proof (induction ks)
  case Nil
  then show ?case by simp
next
  case (Cons k ks)
  show ?case
  proof (cases "re_search rx (filter_get tf k) (tags_get tags k)")
    case (Inl e)
    with Cons.prems show ?thesis by simp
  next
    case (Inr m)
    note st = step_test [OF Inr]
    show ?thesis
    proof (cases "truthy (tags_get tags k) \<and> m")
      case True
      with Inr Cons.prems have "b" by auto
      moreover from True st have "criterion_matches rx tags k (filter_get tf k)" by simp
      ultimately show ?thesis by simp
    next
      case False
      with Inr Cons.prems have "filter_tags_loop rx tf tags ks = Inr b" by auto
      from Cons.IH [OF this] False st show ?thesis by simp
    qed
  qed
qed

lemma filter_tags_loop_total:
  assumes "\<forall>k\<in>set ks. \<exists>ps m. filter_get tf k = PyStr ps \<and> rx ps = Some m"
      and "\<forall>k. tags k \<noteq> Some PyNone"
  shows "\<exists>b. filter_tags_loop rx tf tags ks = Inr b"
  using assms(1)
proof (induction ks)
  case Nil
  show ?case by (rule exI [of _ False]) simp
next
  case (Cons k ks)
  from Cons.prems obtain ps f where p: "filter_get tf k = PyStr ps" and f: "rx ps = Some f"
    by auto
  from assms(2) obtain t where t: "tags_get tags k = PyStr t"
    by (cases "tags k"; cases "tags_get tags k"; auto simp: tags_get_def)
  from Cons.prems have "\<exists>b. filter_tags_loop rx tf tags ks = Inr b"
    by (intro Cons.IH) simp
  then obtain b where "filter_tags_loop rx tf tags ks = Inr b" ..
  with p f t show ?case
    by (cases "truthy (PyStr t) \<and> f t") (auto simp: re_search_def)
qed

lemma filter_get_in_set:
  "k \<in> set (map fst tf) \<Longrightarrow> (k, filter_get tf k) \<in> set tf"
  by (auto simp: filter_get_def split: option.splits dest: map_of_SomeD simp: map_of_eq_None_iff)

lemma keys_criteria:
  "distinct (map fst tf) \<Longrightarrow>
   (\<exists>k\<in>set (map fst tf). criterion_matches rx tags k (filter_get tf k)) =
   any_criterion_matches rx tf tags"
  by (force simp: any_criterion_matches_def list_ex_iff filter_get_def)

lemma patterns_compile_keys:
  "patterns_compile rx tf \<Longrightarrow>
   \<forall>k\<in>set (map fst tf). \<exists>ps m. filter_get tf k = PyStr ps \<and> rx ps = Some m"
proof
  fix k assume pc: "patterns_compile rx tf" and k: "k \<in> set (map fst tf)"
  from k have "(k, filter_get tf k) \<in> set tf" by (rule filter_get_in_set)
  with pc show "\<exists>ps m. filter_get tf k = PyStr ps \<and> rx ps = Some m"
    by (auto simp: patterns_compile_def list_all_iff split: pyval.splits)
qed

subsection \<open>The loops over the response\<close>

lemma instances_loop_ok:
  assumes "\<forall>i\<in>set insts.
             are_any_filter_tags_on_instance rx tf (get_tags_from_instance i) = Inr (tagged i)"
  shows "instances_loop rx tf insts acc =
           Inr (acc @ map summary_of (filter (\<lambda>i. \<not> tagged i) insts))"
  using assms
proof (induction insts arbitrary: acc)
  case Nil
  show ?case by simp
next
  case (Cons i insts)
  then show ?case by (simp add: summary_of_def)
qed

lemma reservations_loop_ok:
  assumes "\<forall>i\<in>set (concat (map Instances rs)).
             are_any_filter_tags_on_instance rx tf (get_tags_from_instance i) = Inr (tagged i)"
  shows "reservations_loop rx tf rs acc =
           Inr (acc @ map summary_of (filter (\<lambda>i. \<not> tagged i) (concat (map Instances rs))))"
  using assms
proof (induction rs arbitrary: acc)
  case Nil
  show ?case by simp
next
  case (Cons r rs)
  from Cons.prems have "instances_loop rx tf (Instances r) acc =
      Inr (acc @ map summary_of (filter (\<lambda>i. \<not> tagged i) (Instances r)))"
    by (intro instances_loop_ok) simp
  moreover from Cons.prems have "reservations_loop rx tf rs
        (acc @ map summary_of (filter (\<lambda>i. \<not> tagged i) (Instances r))) =
      Inr ((acc @ map summary_of (filter (\<lambda>i. \<not> tagged i) (Instances r))) @
           map summary_of (filter (\<lambda>i. \<not> tagged i) (concat (map Instances rs))))"
    by (intro Cons.IH) simp
  ultimately show ?case by simp
qed

lemma instances_loop_Inr:
  "instances_loop rx tf insts acc = Inr res \<Longrightarrow> i \<in> set insts \<Longrightarrow>
     \<exists>b. are_any_filter_tags_on_instance rx tf (get_tags_from_instance i) = Inr b"
proof (induction insts arbitrary: acc)
  case Nil
  then show ?case by simp
next
  case (Cons j insts)
  then show ?case
    by (cases "are_any_filter_tags_on_instance rx tf (get_tags_from_instance j)") auto
qed

lemma reservations_loop_Inr:
  "reservations_loop rx tf rs acc = Inr res \<Longrightarrow> i \<in> set (concat (map Instances rs)) \<Longrightarrow>
     \<exists>b. are_any_filter_tags_on_instance rx tf (get_tags_from_instance i) = Inr b"
proof (induction rs arbitrary: acc)
  case Nil
  then show ?case by simp
next
  case (Cons r rs)
  then show ?case
    by (cases "instances_loop rx tf (Instances r) acc") (auto dest: instances_loop_Inr)
qed

lemma list_instances_without_tag_ok:
  assumes "\<forall>i\<in>set (all_instances resp).
             are_any_filter_tags_on_instance rx tf (get_tags_from_instance i) = Inr (tagged i)"
  shows "list_instances_without_tag rx tf resp =
           Inr (map summary_of (filter (\<lambda>i. \<not> tagged i) (all_instances resp)))"
  using reservations_loop_ok [of "Reservations resp" rx tf tagged "[]"] assms
  by (simp add: list_instances_without_tag_def all_instances_def)

lemma list_instances_without_tag_Inr:
  assumes "list_instances_without_tag rx tf resp = Inr res"
  shows "res = map summary_of
           (filter (\<lambda>i. are_any_filter_tags_on_instance rx tf (get_tags_from_instance i) = Inr False)
              (all_instances resp))"
proof -
  let ?tagged = "\<lambda>i. are_any_filter_tags_on_instance rx tf (get_tags_from_instance i) = Inr True"
  have "\<forall>i\<in>set (all_instances resp).
          are_any_filter_tags_on_instance rx tf (get_tags_from_instance i) = Inr (?tagged i)"
  proof
    fix i assume "i \<in> set (all_instances resp)"
    with assms obtain b where
      "are_any_filter_tags_on_instance rx tf (get_tags_from_instance i) = Inr b"
      unfolding list_instances_without_tag_def all_instances_def
      by (blast dest: reservations_loop_Inr)
    then show "are_any_filter_tags_on_instance rx tf (get_tags_from_instance i) = Inr (?tagged i)"
      by simp
  qed
  from list_instances_without_tag_ok [OF this] assms
  have "res = map summary_of (filter (\<lambda>i. \<not> ?tagged i) (all_instances resp))" by simp
  also have "filter (\<lambda>i. \<not> ?tagged i) (all_instances resp) =
     filter (\<lambda>i. are_any_filter_tags_on_instance rx tf (get_tags_from_instance i) = Inr False)
       (all_instances resp)"
  proof (rule filter_cong [OF refl])
    fix i assume "i \<in> set (all_instances resp)"
    with assms obtain b where
      "are_any_filter_tags_on_instance rx tf (get_tags_from_instance i) = Inr b"
      unfolding list_instances_without_tag_def all_instances_def
      by (blast dest: reservations_loop_Inr)
    then show "(\<not> ?tagged i) =
      (are_any_filter_tags_on_instance rx tf (get_tags_from_instance i) = Inr False)" by simp
  qed
  finally show ?thesis .
qed

lemma are_any_Inr:
  assumes "distinct (map fst tf)"
      and "are_any_filter_tags_on_instance rx tf tags = Inr b"
  shows "b = any_criterion_matches rx tf tags"
  using filter_tags_loop_Inr [of rx tf tags "map fst tf" b] assms keys_criteria [of tf rx tags]
  by (simp add: are_any_filter_tags_on_instance_def)

lemma are_any_total:
  assumes "patterns_compile rx tf" and "\<forall>k. tags k \<noteq> Some PyNone"
  shows "\<exists>b. are_any_filter_tags_on_instance rx tf tags = Inr b"
  unfolding are_any_filter_tags_on_instance_def
  using patterns_compile_keys [OF assms(1)] assms(2) by (rule filter_tags_loop_total)

subsection \<open>Consequences for the whole call\<close>

lemma get_tags_from_instance_lookup:
  "get_tags_from_instance inst k =
     (case filter (\<lambda>t. Key t = k \<and> Value t \<noteq> PyNone) (tags_of inst) of
        [] \<Rightarrow> None
      | u # us \<Rightarrow> Some (Value (last (u # us))))"
  by (cases "Tags inst")
     (simp_all add: get_tags_from_instance_def tags_of_def get_tags_loop_lookup)

lemma list_instances_without_tag_total:
  assumes pc: "patterns_compile rx tf"
  shows "list_instances_without_tag rx tf resp =
           Inr (map summary_of
                 (filter (\<lambda>i. are_any_filter_tags_on_instance rx tf (get_tags_from_instance i)
                                = Inr False)
                    (all_instances resp)))"
proof -
  let ?tagged = "\<lambda>i. are_any_filter_tags_on_instance rx tf (get_tags_from_instance i) = Inr True"
  have "\<forall>i\<in>set (all_instances resp).
          are_any_filter_tags_on_instance rx tf (get_tags_from_instance i) = Inr (?tagged i)"
  proof
    fix i
    from are_any_total [OF pc, of "get_tags_from_instance i"] get_tags_from_instance_no_None
    obtain b where "are_any_filter_tags_on_instance rx tf (get_tags_from_instance i) = Inr b"
      by blast
    then show "are_any_filter_tags_on_instance rx tf (get_tags_from_instance i) = Inr (?tagged i)"
      by simp
  qed
  from list_instances_without_tag_ok [OF this]
  obtain res where r: "list_instances_without_tag rx tf resp = Inr res" by blast
  from list_instances_without_tag_Inr [OF r] r show ?thesis by simp
qed

lemma filter_tags_loop_skip:
  assumes "tags_get tags k = PyStr []" and "filter_get tf k = PyStr ps" and "rx ps = Some f"
  shows "filter_tags_loop rx tf tags (k # rest) = filter_tags_loop rx tf tags rest"
  using assms by (simp add: re_search_def truthy_def)


lemma returned_answers:
  assumes "list_instances_without_tag rx tf resp = Inr res" and "i \<in> set (all_instances resp)"
  shows "\<exists>b. are_any_filter_tags_on_instance rx tf (get_tags_from_instance i) = Inr b"
  using assms unfolding list_instances_without_tag_def all_instances_def
  by (blast dest: reservations_loop_Inr)

lemma listed_when_filter_answers_False:
  assumes "list_instances_without_tag rx tf resp = Inr res"
      and "i \<in> set (all_instances resp)"
      and "are_any_filter_tags_on_instance rx tf (get_tags_from_instance i) = Inr False"
  shows "summary_of i \<in> set res"
  using list_instances_without_tag_Inr [OF assms(1)] assms(2,3) by simp

subsection \<open>The store model refines the functions\<close>

lemma cell_at_append:
  "cell_at s a = Some c \<Longrightarrow> cell_at (s @ t) a = Some c"
  by (auto simp: cell_at_def nth_append split: if_splits)

lemma cell_at_update_other:
  "a \<noteq> r \<Longrightarrow> cell_at (s[r := c]) a = cell_at s a"
  by (simp add: cell_at_def)

lemma cell_at_update_same:
  "r < length s \<Longrightarrow> cell_at (s[r := c]) r = Some c"
  by (simp add: cell_at_def)

lemma cell_at_prefix:
  assumes "take (length s0) s = s0" and "cell_at s0 a = Some c"
  shows "cell_at s a = Some c"
proof -
  from assms(2) have a: "a < length s0" and c: "s0 ! a = c"
    by (auto simp: cell_at_def split: if_splits)
  from assms(1) have "length s0 \<le> length s"
    by (metis length_take min.cobounded1 min.commute)
  moreover from a assms(1) have "s ! a = s0 ! a"
    by (metis nth_take)
  ultimately show ?thesis using a c by (simp add: cell_at_def)
qed

lemma keeps_prefix: "take (length s) s' = s \<Longrightarrow> keeps s s'"
  unfolding keeps_def by (blast intro: cell_at_prefix)

lemma keeps_append: "keeps s (s @ t)"
  unfolding keeps_def by (blast intro: cell_at_append)

lemma keeps_getitem:
  "keeps s s' \<Longrightarrow> st_getitem s d k = Some v \<Longrightarrow> st_getitem s' d k = Some v"
  unfolding keeps_def st_getitem_def
  by (cases "cell_at s d") (auto split: cell.splits)

lemma keeps_contains:
  "keeps s s' \<Longrightarrow> st_contains s d k = Some b \<Longrightarrow> st_contains s' d k = Some b"
  unfolding keeps_def st_contains_def
  by (cases "cell_at s d") (auto split: cell.splits)

lemma keeps_items:
  "keeps s s' \<Longrightarrow> st_items s v = Some xs \<Longrightarrow> st_items s' v = Some xs"
  unfolding keeps_def st_items_def
  by (cases v) (auto split: option.splits cell.splits)

lemma keeps_dict_at:
  "keeps s s' \<Longrightarrow> dict_at s a = Some al \<Longrightarrow> dict_at s' a = Some al"
  unfolding keeps_def dict_at_def
  by (cases "cell_at s a") (auto split: cell.splits)

lemma those_map_Some:
  "those (map f xs) = Some ys \<longleftrightarrow> list_all2 (\<lambda>x y. f x = Some y) xs ys"
proof (induction xs arbitrary: ys)
  case Nil
  show ?case by auto
next
  case (Cons x xs)
  show ?case
  proof (cases "f x")
    case None
    then show ?thesis by (cases ys) simp_all
  next
    case (Some v)
    show ?thesis
    proof (cases ys)
      case Nil
      with Some show ?thesis by (simp split: option.splits)
    next
      case (Cons y ys')
      from Cons.IH [of ys'] have
        "(those (map f xs) = Some ys') = list_all2 (\<lambda>x y. f x = Some y) xs ys'" .
      with Some Cons show ?thesis by (auto split: option.splits)
    qed
  qed
qed

lemma those_map_mono:
  assumes "those (map f xs) = Some ys" and "\<And>x y. f x = Some y \<Longrightarrow> g x = Some y"
  shows "those (map g xs) = Some ys"
  using assms unfolding those_map_Some by (blast intro: list_all2_mono)

lemma keeps_tag_at:
  assumes "keeps s s'" and "tag_at s v = Some t"
  shows "tag_at s' v = Some t"
proof (cases v)
  case (VRef a)
  with assms(2) obtain k name x pv where
    "st_getitem s a ''Key'' = Some k" "str_of k = Some name"
    "st_getitem s a ''Value'' = Some x" "pyval_of x = Some pv"
    "t = \<lparr>Key = name, Value = pv\<rparr>"
    by (auto simp: tag_at_def bind_eq_Some_conv)
  with VRef keeps_getitem [OF assms(1)] show ?thesis
    by (simp add: tag_at_def)
qed (use assms(2) in \<open>simp_all add: tag_at_def\<close>)

lemma keeps_instance_at:
  assumes "keeps s s'" and "instance_at s a = Some inst"
  shows "instance_at s' a = Some inst"
proof -
  from assms(2) obtain i iid has_tags where
    i: "st_getitem s a ''InstanceId'' = Some i" "str_of i = Some iid" and
    h: "st_contains s a ''Tags'' = Some has_tags" and
    rest: "(if has_tags then
         do {
           r \<leftarrow> st_getitem s a ''Tags'';
           xs \<leftarrow> st_items s r;
           ts \<leftarrow> those (map (tag_at s) xs);
           Some \<lparr>InstanceId = iid, Tags = Some ts\<rparr>
         }
       else Some \<lparr>InstanceId = iid, Tags = None\<rparr>) = Some inst"
    by (auto simp: instance_at_def bind_eq_Some_conv)
  note i' = keeps_getitem [OF assms(1) i(1)] and h' = keeps_contains [OF assms(1) h]
  show ?thesis
  proof (cases has_tags)
    case False
    with rest i' i(2) h' show ?thesis by (simp add: instance_at_def)
  next
    case True
    with rest obtain r xs ts where
      r: "st_getitem s a ''Tags'' = Some r" and xs: "st_items s r = Some xs" and
      ts: "those (map (tag_at s) xs) = Some ts" and
      inst: "inst = \<lparr>InstanceId = iid, Tags = Some ts\<rparr>"
      by (auto simp: bind_eq_Some_conv)
    from ts have "those (map (tag_at s') xs) = Some ts"
      by (rule those_map_mono) (rule keeps_tag_at [OF assms(1)])
    with True i' i(2) h' keeps_getitem [OF assms(1) r] keeps_items [OF assms(1) xs] inst
    show ?thesis by (simp add: instance_at_def)
  qed
qed

lemma keeps_instance_ref_at:
  "keeps s s' \<Longrightarrow> instance_ref_at s v = Some inst \<Longrightarrow> instance_ref_at s' v = Some inst"
  by (cases v) (simp_all add: instance_ref_at_def keeps_instance_at)

lemma keeps_reservation_at:
  assumes "keeps s s'" and "reservation_at s v = Some res"
  shows "reservation_at s' v = Some res"
proof (cases v)
  case (VRef a)
  with assms(2) obtain r xs insts where
    r: "st_getitem s a ''Instances'' = Some r" and xs: "st_items s r = Some xs" and
    insts: "those (map (instance_ref_at s) xs) = Some insts" and
    res: "res = \<lparr>Instances = insts\<rparr>"
    by (auto simp: reservation_at_def bind_eq_Some_conv)
  from insts have "those (map (instance_ref_at s') xs) = Some insts"
    by (rule those_map_mono) (rule keeps_instance_ref_at [OF assms(1)])
  with VRef keeps_getitem [OF assms(1) r] keeps_items [OF assms(1) xs] res
  show ?thesis by (simp add: reservation_at_def)
qed (use assms(2) in \<open>simp_all add: reservation_at_def\<close>)

lemma keeps_response_at:
  assumes "keeps s s'" and "response_at s a = Some resp"
  shows "response_at s' a = Some resp"
proof -
  from assms(2) obtain r xs rs where
    r: "st_getitem s a ''Reservations'' = Some r" and xs: "st_items s r = Some xs" and
    rs: "those (map (reservation_at s) xs) = Some rs" and
    resp: "resp = \<lparr>Reservations = rs\<rparr>"
    by (auto simp: response_at_def bind_eq_Some_conv)
  from rs have "those (map (reservation_at s') xs) = Some rs"
    by (rule those_map_mono) (rule keeps_reservation_at [OF assms(1)])
  with keeps_getitem [OF assms(1) r] keeps_items [OF assms(1) xs] resp
  show ?thesis by (simp add: response_at_def)
qed


lemma pyval_of_val_of: "pyval_of (val_of pv) = Some pv"
  by (cases pv) simp_all

lemma pyval_of_Some: "pyval_of x = Some pv \<Longrightarrow> x = val_of pv"
  by (cases x; cases pv) simp_all

lemma str_of_Some: "str_of x = Some k \<Longrightarrow> x = VStr k"
  by (cases x) simp_all

lemma val_of_VNone: "(val_of pv = VNone) = (pv = PyNone)"
  by (cases pv) simp_all

lemma map_of_dict_set: "map_of (dict_set al k v) = (map_of al)(k \<mapsto> v)"
  by (induction al) (auto simp: fun_eq_iff)

lemma enc_dict_set: "dict_set (enc al) k (val_of pv) = enc (dict_set al k pv)"
  by (induction al) (auto simp: enc_def)

lemma map_of_enc: "map_of (enc al) k = map_option val_of (map_of al k)"
  by (induction al) (auto simp: enc_def)

lemma dec_enc:
  "those (map (\<lambda>(k, v). map_option (Pair k) (pyval_of v)) (enc al)) = Some al"
  by (induction al) (auto simp: enc_def pyval_of_val_of)

lemma dict_at_enc: "cell_at s a = Some (PyDict (enc al)) \<Longrightarrow> dict_at s a = Some al"
  by (simp add: dict_at_def dec_enc)

lemma tag_at_D:
  assumes "tag_at s v = Some t"
  shows "\<exists>a. v = VRef a \<and> st_getitem s a ''Key'' = Some (VStr (Key t)) \<and>
           st_getitem s a ''Value'' = Some (val_of (Value t))"
proof (cases v)
  case (VRef a)
  with assms obtain k name x pv where
    "st_getitem s a ''Key'' = Some k" "str_of k = Some name"
    "st_getitem s a ''Value'' = Some x" "pyval_of x = Some pv"
    "t = \<lparr>Key = name, Value = pv\<rparr>"
    by (auto simp: tag_at_def bind_eq_Some_conv)
  with VRef show ?thesis by (auto dest: str_of_Some pyval_of_Some)
qed (use assms in \<open>simp_all add: tag_at_def\<close>)

lemma st_setitem_fresh:
  "st_setitem (pre @ [PyDict kvs]) (length pre) (VStr k) v =
     Some (pre @ [PyDict (dict_set kvs k v)])"
  by (simp add: st_setitem_def cell_at_def)

lemma st_get_tags_loop_refines:
  assumes "list_all2 (\<lambda>x t. tag_at pre x = Some t) xs ts"
  shows "\<exists>al'. st_get_tags_loop xs (length pre) (pre @ [PyDict (enc al)]) =
                  Some (pre @ [PyDict (enc al')]) \<and>
               map_of al' = get_tags_loop ts (map_of al)"
  using assms
proof (induction xs ts arbitrary: al rule: list_all2_induct)
  case Nil
  show ?case by auto
next
  case (Cons x xs t ts)
  let ?s = "pre @ [PyDict (enc al)]"
  from tag_at_D [OF Cons.hyps(1)] obtain a where
    x: "x = VRef a" and
    k0: "st_getitem pre a ''Key'' = Some (VStr (Key t))" and
    v0: "st_getitem pre a ''Value'' = Some (val_of (Value t))" by blast
  have k: "st_getitem ?s a ''Key'' = Some (VStr (Key t))"
    using keeps_append k0 by (rule keeps_getitem)
  have v: "st_getitem ?s a ''Value'' = Some (val_of (Value t))"
    using keeps_append v0 by (rule keeps_getitem)
  show ?case
  proof (cases "Value t = PyNone")
    case True
    from Cons.IH [of al] obtain al' where
      "st_get_tags_loop xs (length pre) ?s = Some (pre @ [PyDict (enc al')])"
      "map_of al' = get_tags_loop ts (map_of al)" by blast
    with x k v True show ?thesis by (auto simp: val_of_VNone)
  next
    case False
    have set: "st_setitem ?s (length pre) (VStr (Key t)) (val_of (Value t)) =
                 Some (pre @ [PyDict (enc (dict_set al (Key t) (Value t)))])"
      by (simp add: st_setitem_fresh enc_dict_set)
    from Cons.IH [of "dict_set al (Key t) (Value t)"] obtain al' where
      "st_get_tags_loop xs (length pre) (pre @ [PyDict (enc (dict_set al (Key t) (Value t)))]) =
         Some (pre @ [PyDict (enc al')])"
      "map_of al' = get_tags_loop ts (map_of (dict_set al (Key t) (Value t)))" by blast
    with x k v False set show ?thesis by (auto simp: val_of_VNone map_of_dict_set)
  qed
qed

lemma st_get_tags_from_instance_refines:
  assumes "instance_at s a = Some inst"
  shows "\<exists>al. st_get_tags_from_instance s a = Some (length s, s @ [PyDict (enc al)]) \<and>
              map_of al = get_tags_from_instance inst"
proof -
  let ?s1 = "s @ [PyDict []]"
  have k1: "keeps s ?s1" by (rule keeps_append)
  from assms obtain i iid has_tags where
    h: "st_contains s a ''Tags'' = Some has_tags" and
    rest: "(if has_tags then
         do {
           r \<leftarrow> st_getitem s a ''Tags'';
           xs \<leftarrow> st_items s r;
           ts \<leftarrow> those (map (tag_at s) xs);
           Some \<lparr>InstanceId = iid, Tags = Some ts\<rparr>
         }
       else Some \<lparr>InstanceId = iid, Tags = None\<rparr>) = Some inst"
    by (auto simp: instance_at_def bind_eq_Some_conv)
  note h1 = keeps_contains [OF k1 h]
  show ?thesis
  proof (cases has_tags)
    case False
    with rest have "Tags inst = None" by auto
    then have "map_of [] = get_tags_from_instance inst"
      by (simp add: get_tags_from_instance_def)
    moreover from False h1 have "st_get_tags_from_instance s a = Some (length s, s @ [PyDict (enc [])])"
      by (simp add: st_get_tags_from_instance_def alloc_def enc_def)
    ultimately show ?thesis by blast
  next
    case True
    with rest obtain r xs ts where
      r: "st_getitem s a ''Tags'' = Some r" and xs: "st_items s r = Some xs" and
      ts: "those (map (tag_at s) xs) = Some ts" and
      inst: "inst = \<lparr>InstanceId = iid, Tags = Some ts\<rparr>"
      by (auto simp: bind_eq_Some_conv)
    from ts have "list_all2 (\<lambda>x t. tag_at s x = Some t) xs ts" by (simp add: those_map_Some)
    from st_get_tags_loop_refines [OF this, of "[]"] obtain al' where
      l: "st_get_tags_loop xs (length s) (s @ [PyDict (enc [])]) = Some (s @ [PyDict (enc al')])"
      and m: "map_of al' = get_tags_loop ts (map_of [])" by blast
    from inst m have "map_of al' = get_tags_from_instance inst"
      by (simp add: get_tags_from_instance_def)
    moreover from True h1 keeps_getitem [OF k1 r] keeps_items [OF k1 xs] l
    have "st_get_tags_from_instance s a = Some (length s, s @ [PyDict (enc al')])"
      by (simp add: st_get_tags_from_instance_def alloc_def enc_def)
    ultimately show ?thesis by blast
  qed
qed


lemma instance_at_id:
  "instance_at s a = Some inst \<Longrightarrow> st_getitem s a ''InstanceId'' = Some (VStr (InstanceId inst))"
  by (auto simp: instance_at_def bind_eq_Some_conv split: if_splits dest: str_of_Some)

lemma st_instances_loop_step:
  assumes ia: "instance_at s a = Some inst"
      and f: "dict_at s f = Some tf"
      and r: "cell_at s r = Some (PyList ys)"
  shows "\<exists>al. map_of al = get_tags_from_instance inst \<and>
     st_instances_loop rx f (VRef a # rest) r s =
     (case are_any_filter_tags_on_instance rx tf (get_tags_from_instance inst) of
        Inl e \<Rightarrow> Some (Inl e, s @ [PyDict (enc al), PyDict []])
      | Inr b \<Rightarrow>
          if b then st_instances_loop rx f rest r (s @ [PyDict (enc al), PyDict []])
          else
            st_instances_loop rx f rest r
              ((s @ [PyDict (enc al), PyDict (enc (data_alist (summary_of inst)))])
                 [r := PyList (ys @ [VRef (Suc (length s))])]))"
proof -
  let ?tags = "get_tags_from_instance inst"
  let ?name = "case ?tags ''Name'' of Some v \<Rightarrow> v | None \<Rightarrow> PyStr []"
  from st_get_tags_from_instance_refines [OF ia] obtain al where
    g: "st_get_tags_from_instance s a = Some (length s, s @ [PyDict (enc al)])" and
    m: "map_of al = ?tags" by blast
  let ?s1 = "s @ [PyDict (enc al)]"
  let ?s2 = "s @ [PyDict (enc al), PyDict []]"
  let ?s3 = "s @ [PyDict (enc al), PyDict [(''InstanceId'', VStr (InstanceId inst))]]"
  let ?s4 = "s @ [PyDict (enc al), PyDict (enc (data_alist (summary_of inst)))]"
  have al: "alloc (PyDict []) ?s1 = (Suc (length s), ?s2)" by (simp add: alloc_def)
  have k2: "keeps s ?s2" by (rule keeps_append)
  have f2: "dict_at ?s2 f = Some tf" using k2 f by (rule keeps_dict_at)
  have d2: "dict_at ?s2 (length s) = Some al"
    by (rule dict_at_enc) (simp add: cell_at_def)
  have any: "st_are_any_filter_tags_on_instance rx ?s2 f (length s) =
               Some (are_any_filter_tags_on_instance rx tf ?tags)"
    by (simp add: st_are_any_filter_tags_on_instance_def f2 d2 m)
  have id2: "st_getitem ?s2 a ''InstanceId'' = Some (VStr (InstanceId inst))"
    using k2 instance_at_id [OF ia] by (rule keeps_getitem)
  have set1: "st_setitem ?s2 (Suc (length s)) (VStr ''InstanceId'') (VStr (InstanceId inst)) =
                Some ?s3"
    using st_setitem_fresh [of ?s1 "[]" "''InstanceId''" "VStr (InstanceId inst)"] by simp
  have has: "st_contains ?s3 (length s) ''Name'' = Some (?tags ''Name'' \<noteq> None)"
    by (simp add: st_contains_def cell_at_def map_of_enc m)
  have get: "st_getitem ?s3 (length s) ''Name'' = map_option val_of (?tags ''Name'')"
    by (simp add: st_getitem_def cell_at_def map_of_enc m)
  have name: "(if ?tags ''Name'' \<noteq> None then st_getitem ?s3 (length s) ''Name''
               else Some (VStr [])) = Some (val_of ?name)"
    by (cases "?tags ''Name''") (simp_all add: get)
  have set2: "st_setitem ?s3 (Suc (length s)) (VStr ''Name'') (val_of ?name) = Some ?s4"
    using st_setitem_fresh [of ?s1 "[(''InstanceId'', VStr (InstanceId inst))]" "''Name''"
            "val_of ?name"]
    by (simp add: enc_def data_alist_def summary_of_def instance_data_of_def)
  from r have r4: "cell_at ?s4 r = Some (PyList ys)" by (rule cell_at_append)
  have app: "st_append ?s4 r (VRef (Suc (length s))) =
               Some (?s4[r := PyList (ys @ [VRef (Suc (length s))])])"
    by (simp add: st_append_def r4)
  have "st_instances_loop rx f (VRef a # rest) r s =
     (case are_any_filter_tags_on_instance rx tf ?tags of
        Inl e \<Rightarrow> Some (Inl e, ?s2)
      | Inr b \<Rightarrow>
          if b then st_instances_loop rx f rest r ?s2
          else st_instances_loop rx f rest r (?s4[r := PyList (ys @ [VRef (Suc (length s))])]))"
  proof (cases "are_any_filter_tags_on_instance rx tf ?tags")
    case (Inl e)
    then show ?thesis by (simp add: g al any)
  next
    case (Inr b)
    show ?thesis
    proof (cases b)
      case True
      with Inr show ?thesis by (simp add: g al any)
    next
      case False
      show ?thesis
      proof (cases "?tags ''Name''")
        case None
        with set2 have "st_setitem ?s3 (Suc (length s)) (VStr ''Name'') (VStr []) = Some ?s4"
          by simp
        with Inr False None show ?thesis by (simp add: g al any id2 set1 has app)
      next
        case (Some v)
        with set2 have "st_setitem ?s3 (Suc (length s)) (VStr ''Name'') (val_of v) = Some ?s4"
          by simp
        with Inr False Some show ?thesis by (simp add: g al any id2 set1 has get app)
      qed
    qed
  qed
  with m show ?thesis by blast
qed


lemma prefix_length:
  "take (length s0) s = s0 \<Longrightarrow> length s0 \<le> length s"
  by (metis length_take min.cobounded1 min.commute)

lemma prefix_append:
  "take (length s0) s = s0 \<Longrightarrow> take (length s0) (s @ t) = s0"
  using prefix_length [of s0 s] by simp

lemma prefix_update:
  "take (length s0) s = s0 \<Longrightarrow> length s0 \<le> r \<Longrightarrow> take (length s0) (s[r := c]) = s0"
  by (simp add: take_update_cancel)

lemma instance_ref_at_D:
  "instance_ref_at s x = Some inst \<Longrightarrow> \<exists>a. x = VRef a \<and> instance_at s a = Some inst"
  by (cases x) (simp_all add: instance_ref_at_def)

lemma dict_ref_at_append:
  "dict_ref_at s y = Some al \<Longrightarrow> dict_ref_at (s @ t) y = Some al"
  by (cases y) (simp_all add: dict_ref_at_def keeps_dict_at [OF keeps_append])

lemma dict_ref_at_update_other:
  "y \<noteq> VRef r \<Longrightarrow> dict_ref_at (s[r := c]) y = dict_ref_at s y"
  by (cases y) (simp_all add: dict_ref_at_def dict_at_def cell_at_update_other)

lemma st_instances_loop_refines:
  assumes "list_all2 (\<lambda>x inst. instance_ref_at s0 x = Some inst) xs insts"
      and f: "dict_at s0 f = Some tf"
      and r0: "length s0 \<le> r"
      and "take (length s0) s = s0"
      and "cell_at s r = Some (PyList ys)"
      and "VRef r \<notin> set ys"
      and "list_all2 (\<lambda>y d. dict_ref_at s y = Some (data_alist d)) ys acc"
  shows "\<exists>out s'. st_instances_loop rx f xs r s = Some (out, s') \<and>
           take (length s0) s' = s0 \<and>
           (case instances_loop rx tf insts acc of
              Inl e \<Rightarrow> out = Inl e
            | Inr res \<Rightarrow>
                out = Inr () \<and>
                (\<exists>ys'. cell_at s' r = Some (PyList ys') \<and> VRef r \<notin> set ys' \<and>
                   list_all2 (\<lambda>y d. dict_ref_at s' y = Some (data_alist d)) ys' res))"
  using assms(1,4-7)
proof (induction xs insts arbitrary: s ys acc rule: list_all2_induct)
  case Nil
  then show ?case by auto
next
  case (Cons x xs inst insts)
  let ?tags = "get_tags_from_instance inst"
  note pre = \<open>take (length s0) s = s0\<close>
  note r = \<open>cell_at s r = Some (PyList ys)\<close>
  note ysr = \<open>VRef r \<notin> set ys\<close>
  note acc = \<open>list_all2 (\<lambda>y d. dict_ref_at s y = Some (data_alist d)) ys acc\<close>
  from instance_ref_at_D [OF Cons.hyps(1)] obtain a where
    x: "x = VRef a" and ia0: "instance_at s0 a = Some inst" by blast
  have ks: "keeps s0 s" using pre by (rule keeps_prefix)
  have ia: "instance_at s a = Some inst" using ks ia0 by (rule keeps_instance_at)
  have fs: "dict_at s f = Some tf" using ks f by (rule keeps_dict_at)
  from r have rlt: "r < length s" by (auto simp: cell_at_def split: if_splits)
  from st_instances_loop_step [OF ia fs r, of rx xs] obtain al where
    step: "st_instances_loop rx f (VRef a # xs) r s =
     (case are_any_filter_tags_on_instance rx tf ?tags of
        Inl e \<Rightarrow> Some (Inl e, s @ [PyDict (enc al), PyDict []])
      | Inr b \<Rightarrow>
          if b then st_instances_loop rx f xs r (s @ [PyDict (enc al), PyDict []])
          else
            st_instances_loop rx f xs r
              ((s @ [PyDict (enc al), PyDict (enc (data_alist (summary_of inst)))])
                 [r := PyList (ys @ [VRef (Suc (length s))])]))" by blast
  let ?s2 = "s @ [PyDict (enc al), PyDict []]"
  let ?s4 = "s @ [PyDict (enc al), PyDict (enc (data_alist (summary_of inst)))]"
  let ?s5 = "?s4[r := PyList (ys @ [VRef (Suc (length s))])]"
  show ?case
  proof (cases "are_any_filter_tags_on_instance rx tf ?tags")
    case (Inl e)
    with step x prefix_append [OF pre, of "[PyDict (enc al), PyDict []]"]
    show ?thesis by simp
  next
    case (Inr b)
    show ?thesis
    proof (cases b)
      case True
      have p2: "take (length s0) ?s2 = s0" using pre by (rule prefix_append)
      have r2: "cell_at ?s2 r = Some (PyList ys)" using r by (rule cell_at_append)
      have acc2: "list_all2 (\<lambda>y d. dict_ref_at ?s2 y = Some (data_alist d)) ys acc"
        using acc by (rule list_all2_mono) (rule dict_ref_at_append)
      from Cons.IH [OF p2 r2 ysr acc2] step x Inr True show ?thesis by simp
    next
      case False
      have p4: "take (length s0) ?s4 = s0" using pre by (rule prefix_append)
      have p5: "take (length s0) ?s5 = s0" using p4 r0 by (rule prefix_update)
      have r5: "cell_at ?s5 r = Some (PyList (ys @ [VRef (Suc (length s))]))"
        using rlt by (simp add: cell_at_update_same)
      have ysr5: "VRef r \<notin> set (ys @ [VRef (Suc (length s))])" using ysr rlt by auto
      have old: "list_all2 (\<lambda>y d. dict_ref_at ?s5 y = Some (data_alist d)) ys acc"
        using acc
      proof (rule list.rel_mono_strong)
        fix y d assume "dict_ref_at s y = Some (data_alist d)"
        then have "dict_ref_at ?s4 y = Some (data_alist d)" by (rule dict_ref_at_append)
        moreover assume "y \<in> set ys"
        with ysr have "y \<noteq> VRef r" by auto
        ultimately show "dict_ref_at ?s5 y = Some (data_alist d)"
          by (simp add: dict_ref_at_update_other)
      qed
      have "cell_at ?s5 (Suc (length s)) = Some (PyDict (enc (data_alist (summary_of inst))))"
        using rlt by (simp add: cell_at_def nth_append)
      then have new: "dict_ref_at ?s5 (VRef (Suc (length s))) = Some (data_alist (summary_of inst))"
        by (simp add: dict_ref_at_def dict_at_enc)
      have acc5: "list_all2 (\<lambda>y d. dict_ref_at ?s5 y = Some (data_alist d))
                    (ys @ [VRef (Suc (length s))]) (acc @ [summary_of inst])"
        using old new by (simp add: list_all2_appendI)
      from Cons.IH [OF p5 r5 ysr5 acc5] step x Inr False show ?thesis
        by (simp add: summary_of_def)
    qed
  qed
qed


lemma reservation_at_D:
  assumes "reservation_at s v = Some res"
  shows "\<exists>a r xs. v = VRef a \<and> st_getitem s a ''Instances'' = Some r \<and>
           st_items s r = Some xs \<and>
           list_all2 (\<lambda>x inst. instance_ref_at s x = Some inst) xs (Instances res)"
proof (cases v)
  case (VRef a)
  with assms obtain r xs insts where
    "st_getitem s a ''Instances'' = Some r" "st_items s r = Some xs"
    "those (map (instance_ref_at s) xs) = Some insts" "res = \<lparr>Instances = insts\<rparr>"
    by (auto simp: reservation_at_def bind_eq_Some_conv)
  with VRef show ?thesis by (auto simp: those_map_Some)
qed (use assms in \<open>simp_all add: reservation_at_def\<close>)

lemma response_at_D:
  assumes "response_at s a = Some resp"
  shows "\<exists>r xs. st_getitem s a ''Reservations'' = Some r \<and> st_items s r = Some xs \<and>
           list_all2 (\<lambda>x res. reservation_at s x = Some res) xs (Reservations resp)"
proof -
  from assms obtain r xs rs where
    "st_getitem s a ''Reservations'' = Some r" "st_items s r = Some xs"
    "those (map (reservation_at s) xs) = Some rs" "resp = \<lparr>Reservations = rs\<rparr>"
    by (auto simp: response_at_def bind_eq_Some_conv)
  then show ?thesis by (auto simp: those_map_Some)
qed

lemma st_reservations_loop_refines:
  assumes "list_all2 (\<lambda>x res. reservation_at s0 x = Some res) xs rs"
      and f: "dict_at s0 f = Some tf"
      and r0: "length s0 \<le> r"
      and "take (length s0) s = s0"
      and "cell_at s r = Some (PyList ys)"
      and "VRef r \<notin> set ys"
      and "list_all2 (\<lambda>y d. dict_ref_at s y = Some (data_alist d)) ys acc"
  shows "\<exists>out s'. st_reservations_loop rx f xs r s = Some (out, s') \<and>
           take (length s0) s' = s0 \<and>
           (case reservations_loop rx tf rs acc of
              Inl e \<Rightarrow> out = Inl e
            | Inr res \<Rightarrow>
                out = Inr () \<and>
                (\<exists>ys'. cell_at s' r = Some (PyList ys') \<and> VRef r \<notin> set ys' \<and>
                   list_all2 (\<lambda>y d. dict_ref_at s' y = Some (data_alist d)) ys' res))"
  using assms(1,4-7)
proof (induction xs rs arbitrary: s ys acc rule: list_all2_induct)
  case Nil
  then show ?case by auto
next
  case (Cons x xs res rs)
  note pre = \<open>take (length s0) s = s0\<close>
  have ks: "keeps s0 s" using pre by (rule keeps_prefix)
  from reservation_at_D [OF Cons.hyps(1)] obtain a iref ivs where
    x: "x = VRef a" and
    g0: "st_getitem s0 a ''Instances'' = Some iref" and
    i0: "st_items s0 iref = Some ivs" and
    insts: "list_all2 (\<lambda>x inst. instance_ref_at s0 x = Some inst) ivs (Instances res)"
    by blast
  note g = keeps_getitem [OF ks g0] and i = keeps_items [OF ks i0]
  from st_instances_loop_refines [OF insts f r0 pre Cons.prems(2,3,4), of rx]
  obtain out s' where
    run: "st_instances_loop rx f ivs r s = Some (out, s')" and
    pre': "take (length s0) s' = s0" and
    out: "case instances_loop rx tf (Instances res) acc of
            Inl e \<Rightarrow> out = Inl e
          | Inr res' \<Rightarrow>
              out = Inr () \<and>
              (\<exists>ys'. cell_at s' r = Some (PyList ys') \<and> VRef r \<notin> set ys' \<and>
                 list_all2 (\<lambda>y d. dict_ref_at s' y = Some (data_alist d)) ys' res')"
    by blast
  show ?case
  proof (cases "instances_loop rx tf (Instances res) acc")
    case (Inl e)
    with out have "out = Inl e" by simp
    with run x g i pre' Inl show ?thesis by simp
  next
    case (Inr acc')
    with out obtain ys' where o: "out = Inr ()" and
      r': "cell_at s' r = Some (PyList ys')" and ysr': "VRef r \<notin> set ys'" and
      acc': "list_all2 (\<lambda>y d. dict_ref_at s' y = Some (data_alist d)) ys' acc'"
      by auto
    from Cons.IH [OF pre' r' ysr' acc'] run x g i o Inr show ?thesis by simp
  qed
qed

lemma st_list_instances_without_tag_refines:
  assumes f: "dict_at s f = Some tf" and resp: "response_at s ra = Some resp"
  shows "\<exists>out s'. st_list_instances_without_tag rx s f ra = Some (out, s') \<and>
           take (length s) s' = s \<and>
           agrees s' out (list_instances_without_tag rx tf resp)"
proof -
  let ?s1 = "s @ [PyList []]"
  have k1: "keeps s ?s1" by (rule keeps_append)
  from response_at_D [OF resp] obtain rref rvs where
    g0: "st_getitem s ra ''Reservations'' = Some rref" and
    i0: "st_items s rref = Some rvs" and
    rs: "list_all2 (\<lambda>x res. reservation_at s x = Some res) rvs (Reservations resp)"
    by blast
  note g = keeps_getitem [OF k1 g0] and i = keeps_items [OF k1 i0]
  have p1: "take (length s) ?s1 = s" by simp
  have r1: "cell_at ?s1 (length s) = Some (PyList [])" by (simp add: cell_at_def)
  have e1: "VRef (length s) \<notin> set []" by simp
  have a1: "list_all2 (\<lambda>y d. dict_ref_at ?s1 y = Some (data_alist d)) [] []" by simp
  from st_reservations_loop_refines [OF rs f order_refl p1 r1 e1 a1, of rx]
  obtain out s' where
    run: "st_reservations_loop rx f rvs (length s) ?s1 = Some (out, s')" and
    pre': "take (length s) s' = s" and
    out: "case reservations_loop rx tf (Reservations resp) [] of
            Inl e \<Rightarrow> out = Inl e
          | Inr res \<Rightarrow>
              out = Inr () \<and>
              (\<exists>ys'. cell_at s' (length s) = Some (PyList ys') \<and> VRef (length s) \<notin> set ys' \<and>
                 list_all2 (\<lambda>y d. dict_ref_at s' y = Some (data_alist d)) ys' res)"
    by blast
  show ?thesis
  proof (cases "reservations_loop rx tf (Reservations resp) []")
    case (Inl e)
    with out have "out = Inl e" by simp
    with run g i pre' Inl show ?thesis
      by (simp add: st_list_instances_without_tag_def alloc_def agrees_def
            list_instances_without_tag_def)
  next
    case (Inr res)
    with out obtain ys' where o: "out = Inr ()" and
      r': "cell_at s' (length s) = Some (PyList ys')" and
      acc': "list_all2 (\<lambda>y d. dict_ref_at s' y = Some (data_alist d)) ys' res"
      by auto
    from acc' have "list_all2 (\<lambda>y al. dict_ref_at s' y = Some al) ys' (map data_alist res)"
      by (simp add: list_all2_map2)
    then have "those (map (dict_ref_at s') ys') = Some (map data_alist res)"
      by (simp add: those_map_Some)
    with r' have "result_at s' (length s) = Some (map data_alist res)"
      by (simp add: result_at_def)
    with run g i pre' Inr o show ?thesis
      by (simp add: st_list_instances_without_tag_def alloc_def agrees_def
            list_instances_without_tag_def)
  qed
qed

lemma st_get_tags_from_instance_frame:
  assumes "instance_at s a = Some inst"
  shows "\<exists>d s'. st_get_tags_from_instance s a = Some (d, s') \<and>
           take (length s) s' = s \<and>
           map_option map_of (dict_at s' d) = Some (get_tags_from_instance inst)"
proof -
  from st_get_tags_from_instance_refines [OF assms] obtain al where
    g: "st_get_tags_from_instance s a = Some (length s, s @ [PyDict (enc al)])" and
    m: "map_of al = get_tags_from_instance inst" by blast
  have "dict_at (s @ [PyDict (enc al)]) (length s) = Some al"
    by (rule dict_at_enc) (simp add: cell_at_def)
  with g m show ?thesis by simp
qed

lemma st_setitem_changes_the_store:
  assumes "cell_at s d = Some (PyDict kvs)" and "map_of kvs k \<noteq> Some v"
      and "st_setitem s d (VStr k) v = Some s'"
  shows "take (length s) s' \<noteq> s"
proof
  assume same: "take (length s) s' = s"
  from assms(1) have d: "d < length s" and c: "s ! d = PyDict kvs"
    by (auto simp: cell_at_def split: if_splits)
  from assms(1,3) have s': "s' = s[d := PyDict (dict_set kvs k v)]"
    by (simp add: st_setitem_def)
  with same d c have "PyDict (dict_set kvs k v) = PyDict kvs"
    by (metis length_list_update nth_list_update_eq take_all order_refl)
  then have "map_of (dict_set kvs k v) k = map_of kvs k" by simp
  with assms(2) show False by (simp add: map_of_dict_set)
qed

lemma st_append_changes_the_store:
  assumes "cell_at s l = Some (PyList xs)" and "st_append s l x = Some s'"
  shows "take (length s) s' \<noteq> s"
proof
  assume same: "take (length s) s' = s"
  from assms(1) have l: "l < length s" and c: "s ! l = PyList xs"
    by (auto simp: cell_at_def split: if_splits)
  from assms have s': "s' = s[l := PyList (xs @ [x])]"
    by (simp add: st_append_def)
  with same l c have "PyList (xs @ [x]) = PyList xs"
    by (metis length_list_update nth_list_update_eq take_all order_refl)
  then show False by simp
qed

section \<open>The claims\<close>

text \<open>
  Claim C4. For every instance record that has no tags field at all,
  \<^verbatim>\<open>get_tags_from_instance\<close> returns the empty dictionary: the missing field is
  treated as no tags, not as an error.
\<close>

theorem get_tags_from_instance_no_tags_field:
  "Tags inst = None \<Longrightarrow> get_tags_from_instance inst = Map.empty"
  by (simp add: get_tags_from_instance_def)

theorem get_tags_from_instance_no_tags_field_witness:
  "Tags \<lparr>InstanceId = ''i-0a1'', Tags = None\<rparr> = None \<and>
   get_tags_from_instance \<lparr>InstanceId = ''i-0a1'', Tags = None\<rparr> = Map.empty"
  using get_tags_from_instance_no_tags_field [of "\<lparr>InstanceId = ''i-0a1'', Tags = None\<rparr>"]
  by simp

text \<open>
  Claim C9. For an empty filter, \<^verbatim>\<open>are_any_filter_tags_on_instance\<close> returns
  false for every tag dictionary, whatever the engine, and
  \<^verbatim>\<open>list_instances_without_tag\<close> returns the dictionary of every instance of the
  response, in the order of the response.
\<close>

theorem empty_filter_lists_every_instance:
  "are_any_filter_tags_on_instance rx [] instances_tags = Inr False \<and>
   list_instances_without_tag rx [] resp = Inr (map summary_of (all_instances resp))"
proof -
  have a: "\<And>t. are_any_filter_tags_on_instance rx [] t = Inr False"
    by (simp add: are_any_filter_tags_on_instance_def)
  have "\<forall>i\<in>set (all_instances resp).
          are_any_filter_tags_on_instance rx [] (get_tags_from_instance i) = Inr ((\<lambda>_. False) i)"
    by (simp add: a)
  from list_instances_without_tag_ok [OF this] a show ?thesis by simp
qed

text \<open>
  Claim C1. For every filter (a dictionary, so its keys are distinct) and every
  response, \<^verbatim>\<open>list_instances_without_tag\<close> leaves an instance out of its result
  if and only if some criterion \<open>(k, p)\<close> of the filter matches: the instance's tag
  dictionary has a non-empty value for \<open>k\<close> and the search for \<open>p\<close> in that value
  succeeds. One matching criterion suffices. The result is the list of the
  dictionaries of exactly the other instances; the call returns it when every pattern
  compiles, and whenever the call returns, this is what it returns.
\<close>

theorem excluded_iff_some_criterion_matches:
  assumes "distinct (map fst tf)"
  shows "(patterns_compile rx tf \<longrightarrow>
           list_instances_without_tag rx tf resp =
             Inr (map summary_of
                   (filter (\<lambda>i. \<not> any_criterion_matches rx tf (get_tags_from_instance i))
                      (all_instances resp)))) \<and>
         (\<forall>res. list_instances_without_tag rx tf resp = Inr res \<longrightarrow>
            res = map summary_of
                    (filter (\<lambda>i. \<not> any_criterion_matches rx tf (get_tags_from_instance i))
                       (all_instances resp)))"
proof (intro conjI impI allI)
  assume pc: "patterns_compile rx tf"
  have "\<forall>i\<in>set (all_instances resp).
          are_any_filter_tags_on_instance rx tf (get_tags_from_instance i) =
            Inr (any_criterion_matches rx tf (get_tags_from_instance i))"
  proof
    fix i
    from are_any_total [OF pc, of "get_tags_from_instance i"] get_tags_from_instance_no_None
    obtain b where b: "are_any_filter_tags_on_instance rx tf (get_tags_from_instance i) = Inr b"
      by blast
    with are_any_Inr [OF assms b]
    show "are_any_filter_tags_on_instance rx tf (get_tags_from_instance i) =
            Inr (any_criterion_matches rx tf (get_tags_from_instance i))" by simp
  qed
  then show "list_instances_without_tag rx tf resp =
      Inr (map summary_of
            (filter (\<lambda>i. \<not> any_criterion_matches rx tf (get_tags_from_instance i))
               (all_instances resp)))"
    by (rule list_instances_without_tag_ok)
next
  fix res
  assume r: "list_instances_without_tag rx tf resp = Inr res"
  have "filter (\<lambda>i. are_any_filter_tags_on_instance rx tf (get_tags_from_instance i) = Inr False)
          (all_instances resp) =
        filter (\<lambda>i. \<not> any_criterion_matches rx tf (get_tags_from_instance i)) (all_instances resp)"
  proof (rule filter_cong [OF refl])
    fix i assume "i \<in> set (all_instances resp)"
    with r obtain b where
      b: "are_any_filter_tags_on_instance rx tf (get_tags_from_instance i) = Inr b"
      unfolding list_instances_without_tag_def all_instances_def
      by (blast dest: reservations_loop_Inr)
    with are_any_Inr [OF assms b]
    show "(are_any_filter_tags_on_instance rx tf (get_tags_from_instance i) = Inr False) =
          (\<not> any_criterion_matches rx tf (get_tags_from_instance i))" by simp
  qed
  with list_instances_without_tag_Inr [OF r]
  show "res = map summary_of
                (filter (\<lambda>i. \<not> any_criterion_matches rx tf (get_tags_from_instance i))
                   (all_instances resp))" by simp
qed

theorem excluded_iff_some_criterion_matches_witness:
  "distinct (map fst owner_team_filter) \<and>
   patterns_compile frag_re owner_team_filter \<and>
   any_criterion_matches frag_re owner_team_filter (get_tags_from_instance inst_team) \<and>
   \<not> any_criterion_matches frag_re owner_team_filter (get_tags_from_instance inst_bare) \<and>
   list_instances_without_tag frag_re owner_team_filter sample_response =
     Inr (map summary_of
           (filter (\<lambda>i. \<not> any_criterion_matches frag_re owner_team_filter
                             (get_tags_from_instance i))
              (all_instances sample_response))) \<and>
   list_instances_without_tag frag_re owner_team_filter sample_response =
     Inr [\<lparr>data_InstanceId = ''i-0001'', data_Name = PyStr ''web-1''\<rparr>,
          \<lparr>data_InstanceId = ''i-0002'', data_Name = PyStr ''db-1''\<rparr>,
          \<lparr>data_InstanceId = ''i-0003'', data_Name = PyStr []\<rparr>]"
proof -
  have d: "distinct (map fst owner_team_filter)" by code_simp
  have p: "patterns_compile frag_re owner_team_filter" by code_simp
  have m: "any_criterion_matches frag_re owner_team_filter (get_tags_from_instance inst_team)"
    by code_simp
  have n: "\<not> any_criterion_matches frag_re owner_team_filter (get_tags_from_instance inst_bare)"
    by code_simp
  have v: "list_instances_without_tag frag_re owner_team_filter sample_response =
     Inr [\<lparr>data_InstanceId = ''i-0001'', data_Name = PyStr ''web-1''\<rparr>,
          \<lparr>data_InstanceId = ''i-0002'', data_Name = PyStr ''db-1''\<rparr>,
          \<lparr>data_InstanceId = ''i-0003'', data_Name = PyStr []\<rparr>]"
    by code_simp
  from excluded_iff_some_criterion_matches [OF d, of frag_re sample_response] p
  have "list_instances_without_tag frag_re owner_team_filter sample_response =
     Inr (map summary_of
           (filter (\<lambda>i. \<not> any_criterion_matches frag_re owner_team_filter
                             (get_tags_from_instance i))
              (all_instances sample_response)))" by blast
  with d p m n v show ?thesis by blast
qed

text \<open>
  Claim C6. The result of \<^verbatim>\<open>list_instances_without_tag\<close> follows the order of
  the input: it is the list of the instances for which the filter answers false, in
  the order in which the response holds them, each replaced by its dictionary. For
  the instances A, B, C with A and C untagged the result is A, C.
\<close>

theorem result_follows_input_order:
  "(patterns_compile rx tf \<longrightarrow> (\<exists>res. list_instances_without_tag rx tf resp = Inr res)) \<and>
   (\<forall>res. list_instances_without_tag rx tf resp = Inr res \<longrightarrow>
      res = map summary_of
              (filter (\<lambda>i. are_any_filter_tags_on_instance rx tf (get_tags_from_instance i)
                             = Inr False)
                 (all_instances resp)))"
proof (intro conjI impI allI)
  assume pc: "patterns_compile rx tf"
  let ?tagged = "\<lambda>i. are_any_filter_tags_on_instance rx tf (get_tags_from_instance i) = Inr True"
  have "\<forall>i\<in>set (all_instances resp).
          are_any_filter_tags_on_instance rx tf (get_tags_from_instance i) = Inr (?tagged i)"
  proof
    fix i
    from are_any_total [OF pc, of "get_tags_from_instance i"] get_tags_from_instance_no_None
    obtain b where "are_any_filter_tags_on_instance rx tf (get_tags_from_instance i) = Inr b"
      by blast
    then show "are_any_filter_tags_on_instance rx tf (get_tags_from_instance i) = Inr (?tagged i)"
      by simp
  qed
  from list_instances_without_tag_ok [OF this]
  show "\<exists>res. list_instances_without_tag rx tf resp = Inr res" by blast
next
  fix res
  assume "list_instances_without_tag rx tf resp = Inr res"
  then show "res = map summary_of
      (filter (\<lambda>i. are_any_filter_tags_on_instance rx tf (get_tags_from_instance i) = Inr False)
         (all_instances resp))"
    by (rule list_instances_without_tag_Inr)
qed

theorem result_follows_input_order_witness:
  "patterns_compile frag_re env_filter \<and>
   all_instances abc_response = [inst_staging, inst_prod, inst_bare] \<and>
   are_any_filter_tags_on_instance frag_re env_filter (get_tags_from_instance inst_staging)
     = Inr False \<and>
   are_any_filter_tags_on_instance frag_re env_filter (get_tags_from_instance inst_prod)
     = Inr True \<and>
   are_any_filter_tags_on_instance frag_re env_filter (get_tags_from_instance inst_bare)
     = Inr False \<and>
   list_instances_without_tag frag_re env_filter abc_response =
     Inr [summary_of inst_staging, summary_of inst_bare]"
proof -
  have p: "patterns_compile frag_re env_filter" by code_simp
  have l: "all_instances abc_response = [inst_staging, inst_prod, inst_bare]" by code_simp
  have a: "are_any_filter_tags_on_instance frag_re env_filter
             (get_tags_from_instance inst_staging) = Inr False" by code_simp
  have b: "are_any_filter_tags_on_instance frag_re env_filter
             (get_tags_from_instance inst_prod) = Inr True" by code_simp
  have c: "are_any_filter_tags_on_instance frag_re env_filter
             (get_tags_from_instance inst_bare) = Inr False" by code_simp
  from result_follows_input_order [of frag_re env_filter abc_response] p
  obtain res where r: "list_instances_without_tag frag_re env_filter abc_response = Inr res"
    by blast
  with result_follows_input_order [of frag_re env_filter abc_response]
  have "res = map summary_of
      (filter (\<lambda>i. are_any_filter_tags_on_instance frag_re env_filter (get_tags_from_instance i)
                     = Inr False)
         (all_instances abc_response))" by blast
  with l a b c have "res = [summary_of inst_staging, summary_of inst_bare]" by simp
  with r p l a b c show ?thesis by blast
qed

text \<open>
  Claim C5. An instance of the response that matches no criterion is in every result
  the call returns, with its identifier and, as name, the value of its
  \<^verbatim>\<open>Name\<close> tag if it has one and the empty string otherwise. In particular an
  instance with no tags field is in the result with the empty name, whatever the
  filter. The call returns a result whenever the patterns of the filter compile.
\<close>

theorem untagged_instance_is_listed_with_its_name:
  assumes "distinct (map fst tf)"
      and "inst \<in> set (all_instances resp)"
  shows "(\<forall>res. list_instances_without_tag rx tf resp = Inr res \<longrightarrow>
            \<not> any_criterion_matches rx tf (get_tags_from_instance inst) \<longrightarrow>
            \<lparr>data_InstanceId = InstanceId inst,
             data_Name = (case get_tags_from_instance inst ''Name'' of
                            Some v \<Rightarrow> v | None \<Rightarrow> PyStr [])\<rparr> \<in> set res) \<and>
         (\<forall>res. list_instances_without_tag rx tf resp = Inr res \<longrightarrow>
            Tags inst = None \<longrightarrow>
            \<lparr>data_InstanceId = InstanceId inst, data_Name = PyStr []\<rparr> \<in> set res) \<and>
         (patterns_compile rx tf \<longrightarrow>
            (\<exists>res. list_instances_without_tag rx tf resp = Inr res))"
proof -
  let ?untagged = "\<not> any_criterion_matches rx tf (get_tags_from_instance inst)"
  have s: "summary_of inst =
      \<lparr>data_InstanceId = InstanceId inst,
       data_Name = (case get_tags_from_instance inst ''Name'' of
                      Some v \<Rightarrow> v | None \<Rightarrow> PyStr [])\<rparr>"
    by (simp add: summary_of_def instance_data_of_def)
  have listed: "summary_of inst \<in> set res"
    if r: "list_instances_without_tag rx tf resp = Inr res" and u: ?untagged for res
  proof -
    from returned_answers [OF r assms(2)] obtain b where
      b: "are_any_filter_tags_on_instance rx tf (get_tags_from_instance inst) = Inr b" ..
    from are_any_Inr [OF assms(1) b] u have "\<not> b" by simp
    with b listed_when_filter_answers_False [OF r assms(2)] show ?thesis by simp
  qed
  have e: "get_tags_from_instance inst = Map.empty" if "Tags inst = None"
    using that by (simp add: get_tags_from_instance_def)
  have k: ?untagged if "Tags inst = None"
    using e [OF that]
    by (simp add: any_criterion_matches_def criterion_matches_def list_ex_iff)
  show ?thesis
  proof (intro conjI allI impI)
    fix res
    assume "list_instances_without_tag rx tf resp = Inr res" and ?untagged
    then have "summary_of inst \<in> set res" by (rule listed)
    with s show "\<lparr>data_InstanceId = InstanceId inst,
             data_Name = (case get_tags_from_instance inst ''Name'' of
                            Some v \<Rightarrow> v | None \<Rightarrow> PyStr [])\<rparr> \<in> set res" by simp
  next
    fix res
    assume r: "list_instances_without_tag rx tf resp = Inr res" and t: "Tags inst = None"
    from r k [OF t] have "summary_of inst \<in> set res" by (rule listed)
    with s e [OF t]
    show "\<lparr>data_InstanceId = InstanceId inst, data_Name = PyStr []\<rparr> \<in> set res" by simp
  next
    assume "patterns_compile rx tf"
    from list_instances_without_tag_total [OF this]
    show "\<exists>res. list_instances_without_tag rx tf resp = Inr res" by blast
  qed
qed

theorem untagged_instance_is_listed_with_its_name_witness:
  "distinct (map fst env_filter) \<and> patterns_compile frag_re env_filter \<and>
   inst_staging \<in> set (all_instances sample_response) \<and>
   inst_bare \<in> set (all_instances sample_response) \<and>
   \<not> any_criterion_matches frag_re env_filter (get_tags_from_instance inst_staging) \<and>
   get_tags_from_instance inst_staging ''Name'' = Some (PyStr ''web-1'') \<and>
   Tags inst_bare = None \<and>
   (\<exists>res. list_instances_without_tag frag_re env_filter sample_response = Inr res \<and>
      \<lparr>data_InstanceId = ''i-0001'', data_Name = PyStr ''web-1''\<rparr> \<in> set res \<and>
      \<lparr>data_InstanceId = ''i-0003'', data_Name = PyStr []\<rparr> \<in> set res)"
proof -
  have d: "distinct (map fst env_filter)" by code_simp
  have p: "patterns_compile frag_re env_filter" by code_simp
  have i: "inst_staging \<in> set (all_instances sample_response)" by code_simp
  have j: "inst_bare \<in> set (all_instances sample_response)" by code_simp
  have n: "\<not> any_criterion_matches frag_re env_filter (get_tags_from_instance inst_staging)"
    by code_simp
  have g: "get_tags_from_instance inst_staging ''Name'' = Some (PyStr ''web-1'')" by code_simp
  have t: "Tags inst_bare = None" by code_simp
  have id1: "InstanceId inst_staging = ''i-0001''" by code_simp
  have id3: "InstanceId inst_bare = ''i-0003''" by code_simp
  note w1 = untagged_instance_is_listed_with_its_name [OF d i, of frag_re]
  note w3 = untagged_instance_is_listed_with_its_name [OF d j, of frag_re]
  from w1 p obtain res where
    r: "list_instances_without_tag frag_re env_filter sample_response = Inr res" by blast
  from w1 r n have "\<lparr>data_InstanceId = InstanceId inst_staging,
       data_Name = (case get_tags_from_instance inst_staging ''Name'' of
                      Some v \<Rightarrow> v | None \<Rightarrow> PyStr [])\<rparr> \<in> set res" by blast
  with g id1 have a: "\<lparr>data_InstanceId = ''i-0001'', data_Name = PyStr ''web-1''\<rparr> \<in> set res"
    by simp
  from w3 r t have "\<lparr>data_InstanceId = InstanceId inst_bare, data_Name = PyStr []\<rparr> \<in> set res"
    by blast
  with id3 have b: "\<lparr>data_InstanceId = ''i-0003'', data_Name = PyStr []\<rparr> \<in> set res" by simp
  from d p i j n g t r a b show ?thesis by blast
qed

text \<open>
  Claim C2, as stated, fails: a filter whose pattern is \<^verbatim>\<open>None\<close> makes
  \<^verbatim>\<open>re.search\<close> raise \<^verbatim>\<open>TypeError\<close>, and a pattern that does not compile,
  such as \<^verbatim>\<open>(\<close>, makes it raise \<^verbatim>\<open>re.error\<close>. The search runs before the
  tag's value is tested, so this happens even for an instance with no tags.
\<close>

theorem filter_raises_on_null_or_ill_formed_pattern:
  "list_instances_without_tag frag_re null_filter bare_response = Inl TypeError \<and>
   list_instances_without_tag frag_re unbalanced_filter bare_response = Inl ReError"
  by code_simp

text \<open>
  Claim C2, amended. For every filter whose patterns are all strings that compile and
  every response, \<^verbatim>\<open>list_instances_without_tag\<close> and
  \<^verbatim>\<open>are_any_filter_tags_on_instance\<close> on an extracted tag dictionary raise no
  error, and a criterion whose tag is missing on the instance is passed over: the loop
  continues with the next key.
\<close>

theorem filter_returns_when_patterns_compile:
  assumes "patterns_compile rx tf"
  shows "(\<exists>res. list_instances_without_tag rx tf resp = Inr res) \<and>
         (\<exists>b. are_any_filter_tags_on_instance rx tf (get_tags_from_instance inst) = Inr b) \<and>
         (\<forall>k rest. k \<in> set (map fst tf) \<longrightarrow> get_tags_from_instance inst k = None \<longrightarrow>
            filter_tags_loop rx tf (get_tags_from_instance inst) (k # rest) =
            filter_tags_loop rx tf (get_tags_from_instance inst) rest)"
proof (intro conjI allI impI)
  from list_instances_without_tag_total [OF assms]
  show "\<exists>res. list_instances_without_tag rx tf resp = Inr res" by blast
next
  from are_any_total [OF assms, of "get_tags_from_instance inst"] get_tags_from_instance_no_None
  show "\<exists>b. are_any_filter_tags_on_instance rx tf (get_tags_from_instance inst) = Inr b"
    by blast
next
  fix k rest
  assume k: "k \<in> set (map fst tf)" and n: "get_tags_from_instance inst k = None"
  from patterns_compile_keys [OF assms] k obtain ps f
    where "filter_get tf k = PyStr ps" and "rx ps = Some f" by blast
  moreover from n have "tags_get (get_tags_from_instance inst) k = PyStr []"
    by (simp add: tags_get_def)
  ultimately show "filter_tags_loop rx tf (get_tags_from_instance inst) (k # rest) =
            filter_tags_loop rx tf (get_tags_from_instance inst) rest"
    by (intro filter_tags_loop_skip)
qed

theorem filter_returns_when_patterns_compile_witness:
  "patterns_compile frag_re owner_team_filter \<and>
   (\<exists>res. list_instances_without_tag frag_re owner_team_filter sample_response = Inr res) \<and>
   ''Owner'' \<in> set (map fst owner_team_filter) \<and>
   get_tags_from_instance inst_team ''Owner'' = None \<and>
   filter_tags_loop frag_re owner_team_filter (get_tags_from_instance inst_team)
     [''Owner'', ''Team''] =
   filter_tags_loop frag_re owner_team_filter (get_tags_from_instance inst_team) [''Team'']"
proof -
  have p: "patterns_compile frag_re owner_team_filter" by code_simp
  have k: "''Owner'' \<in> set (map fst owner_team_filter)" by code_simp
  have n: "get_tags_from_instance inst_team ''Owner'' = None" by code_simp
  note w = filter_returns_when_patterns_compile [OF p, of sample_response inst_team]
  from w have "\<exists>res. list_instances_without_tag frag_re owner_team_filter sample_response = Inr res"
    by blast
  moreover from w k n have
    "filter_tags_loop frag_re owner_team_filter (get_tags_from_instance inst_team)
       [''Owner'', ''Team''] =
     filter_tags_loop frag_re owner_team_filter (get_tags_from_instance inst_team) [''Team'']"
    by blast
  ultimately show ?thesis using p k n by blast
qed

text \<open>
  Claim C3, as stated, fails on duplicate names. For the pairs
  \<^verbatim>\<open>Name=web-1\<close>, \<^verbatim>\<open>Name=web-2\<close>, \<^verbatim>\<open>Name=None\<close> the result maps
  \<^verbatim>\<open>Name\<close> to \<^verbatim>\<open>web-2\<close>: the name of the pair with the unset value is not
  absent from the result, and the pair \<^verbatim>\<open>Name=web-1\<close>, whose value is set, does
  not appear under its name.
\<close>

theorem unset_name_present_and_set_pair_absent:
  "\<lparr>Key = ''Name'', Value = PyNone\<rparr> \<in> set (tags_of inst_dup) \<and>
   \<lparr>Key = ''Name'', Value = PyStr ''web-1''\<rparr> \<in> set (tags_of inst_dup) \<and>
   get_tags_from_instance inst_dup ''Name'' = Some (PyStr ''web-2'')"
  by code_simp

text \<open>
  Claim C3, amended. The dictionary returned by \<^verbatim>\<open>get_tags_from_instance\<close> never
  holds a null value. A name is a key of the result exactly when some pair of that
  name has a set value, and it is then mapped to the value of the last such pair. So a
  pair with an unset value adds no entry, and a pair with a set value appears under
  its name unless a later pair of the same name with a set value replaces it.
\<close>

theorem tag_dictionary_holds_last_set_value:
  "(\<forall>k. get_tags_from_instance inst k \<noteq> Some PyNone) \<and>
   (\<forall>k. get_tags_from_instance inst k =
      (case filter (\<lambda>t. Key t = k \<and> Value t \<noteq> PyNone) (tags_of inst) of
         [] \<Rightarrow> None
       | u # us \<Rightarrow> Some (Value (last (u # us))))) \<and>
   (\<forall>k. (get_tags_from_instance inst k \<noteq> None) =
      (\<exists>t \<in> set (tags_of inst). Key t = k \<and> Value t \<noteq> PyNone))"
proof (intro conjI allI)
  fix k
  show "get_tags_from_instance inst k \<noteq> Some PyNone"
    by (rule get_tags_from_instance_no_None)
  show l: "get_tags_from_instance inst k =
      (case filter (\<lambda>t. Key t = k \<and> Value t \<noteq> PyNone) (tags_of inst) of
         [] \<Rightarrow> None
       | u # us \<Rightarrow> Some (Value (last (u # us))))"
    by (rule get_tags_from_instance_lookup)
  show "(get_tags_from_instance inst k \<noteq> None) =
      (\<exists>t \<in> set (tags_of inst). Key t = k \<and> Value t \<noteq> PyNone)"
  proof (cases "filter (\<lambda>t. Key t = k \<and> Value t \<noteq> PyNone) (tags_of inst)")
    case Nil
    with l show ?thesis by (simp add: filter_empty_conv)
  next
    case (Cons u us)
    then have "u \<in> set (filter (\<lambda>t. Key t = k \<and> Value t \<noteq> PyNone) (tags_of inst))" by simp
    then have "\<exists>t \<in> set (tags_of inst). Key t = k \<and> Value t \<noteq> PyNone" by auto
    moreover from l Cons have "get_tags_from_instance inst k \<noteq> None" by simp
    ultimately show ?thesis by simp
  qed
qed

theorem tag_dictionary_holds_last_set_value_witness:
  "get_tags_from_instance inst_dup ''Name'' \<noteq> Some PyNone \<and>
   filter (\<lambda>t. Key t = ''Name'' \<and> Value t \<noteq> PyNone) (tags_of inst_dup) =
     [\<lparr>Key = ''Name'', Value = PyStr ''web-1''\<rparr>, \<lparr>Key = ''Name'', Value = PyStr ''web-2''\<rparr>] \<and>
   get_tags_from_instance inst_dup ''Name'' = Some (PyStr ''web-2'') \<and>
   get_tags_from_instance inst_dup ''Owner'' = None"
proof -
  have f: "filter (\<lambda>t. Key t = ''Name'' \<and> Value t \<noteq> PyNone) (tags_of inst_dup) =
     [\<lparr>Key = ''Name'', Value = PyStr ''web-1''\<rparr>, \<lparr>Key = ''Name'', Value = PyStr ''web-2''\<rparr>]"
    by code_simp
  have g: "filter (\<lambda>t. Key t = ''Owner'' \<and> Value t \<noteq> PyNone) (tags_of inst_dup) = []"
    by code_simp
  note w = tag_dictionary_holds_last_set_value [of inst_dup]
  from w have a: "get_tags_from_instance inst_dup ''Name'' \<noteq> Some PyNone" by blast
  from w have "get_tags_from_instance inst_dup ''Name'' =
      (case filter (\<lambda>t. Key t = ''Name'' \<and> Value t \<noteq> PyNone) (tags_of inst_dup) of
         [] \<Rightarrow> None
       | u # us \<Rightarrow> Some (Value (last (u # us))))" by blast
  with f have b: "get_tags_from_instance inst_dup ''Name'' = Some (PyStr ''web-2'')" by simp
  from w have "get_tags_from_instance inst_dup ''Owner'' =
      (case filter (\<lambda>t. Key t = ''Owner'' \<and> Value t \<noteq> PyNone) (tags_of inst_dup) of
         [] \<Rightarrow> None
       | u # us \<Rightarrow> Some (Value (last (u # us))))" by blast
  with g have c: "get_tags_from_instance inst_dup ''Owner'' = None" by simp
  from a f b c show ?thesis by blast
qed

text \<open>
  Claim C8. When the tag list of an instance holds two pairs of the same name, both
  with set values, and no pair with a set value of that name follows the later one,
  the result maps the name to the value of the later pair.
\<close>

theorem later_duplicate_overwrites_earlier:
  assumes "Tags inst = Some (xs @ t1 # ys @ t2 # zs)"
      and "Key t1 = k" and "Value t1 \<noteq> PyNone"
      and "Key t2 = k" and "Value t2 \<noteq> PyNone"
      and "\<forall>t\<in>set zs. Key t = k \<longrightarrow> Value t = PyNone"
  shows "get_tags_from_instance inst k = Some (Value t2)"
proof -
  let ?P = "\<lambda>t. Key t = k \<and> Value t \<noteq> PyNone"
  from assms(6) have z: "filter ?P zs = []" by (auto simp: filter_empty_conv)
  from assms(1) have "tags_of inst = xs @ t1 # ys @ t2 # zs" by (simp add: tags_of_def)
  with assms(2-5) z have f: "filter ?P (tags_of inst) = (filter ?P xs @ t1 # filter ?P ys) @ [t2]"
    by simp
  show ?thesis
  proof (cases "filter ?P (tags_of inst)")
    case Nil
    with f show ?thesis by simp
  next
    case (Cons u us)
    from f have "last (filter ?P (tags_of inst)) = t2" by (simp only: last_snoc)
    with Cons have "last (u # us) = t2" by simp
    with Cons get_tags_from_instance_lookup [of inst k] show ?thesis by simp
  qed
qed

theorem later_duplicate_overwrites_earlier_witness:
  "Tags inst_dup = Some ([] @ \<lparr>Key = ''Name'', Value = PyStr ''web-1''\<rparr> # [] @
                          \<lparr>Key = ''Name'', Value = PyStr ''web-2''\<rparr> #
                          [\<lparr>Key = ''Name'', Value = PyNone\<rparr>]) \<and>
   get_tags_from_instance inst_dup ''Name'' = Some (PyStr ''web-2'')"
proof -
  have t: "Tags inst_dup = Some ([] @ \<lparr>Key = ''Name'', Value = PyStr ''web-1''\<rparr> # [] @
                          \<lparr>Key = ''Name'', Value = PyStr ''web-2''\<rparr> #
                          [\<lparr>Key = ''Name'', Value = PyNone\<rparr>])"
    by (simp add: inst_dup_def)
  from later_duplicate_overwrites_earlier [OF t, of "''Name''"]
  have "get_tags_from_instance inst_dup ''Name'' = Some (PyStr ''web-2'')" by simp
  with t show ?thesis by blast
qed



text \<open>
  Claim C7. \<^verbatim>\<open>get_tags_from_instance\<close> and \<^verbatim>\<open>list_instances_without_tag\<close> are
  pure and deterministic. Over the store, in which an assignment to an object of the
  input would change that object's cell, a call leaves every object that existed
  before it as it was, the instance, the response and the filter among them: the
  store after the call is the store before it followed by new cells. Its output is the
  value of the stateless function on the input, so a second call on the same
  addresses, made in the store the first call has left, returns an equal output and
  again changes nothing.
\<close>

theorem calls_are_pure_and_deterministic:
  assumes "instance_at s a = Some inst"
      and "dict_at s f = Some tf"
      and "response_at s ra = Some resp"
  shows "(\<exists>d s'. st_get_tags_from_instance s a = Some (d, s') \<and>
            take (length s) s' = s \<and>
            map_option map_of (dict_at s' d) = Some (get_tags_from_instance inst) \<and>
            (\<exists>d2 s''. st_get_tags_from_instance s' a = Some (d2, s'') \<and>
               take (length s') s'' = s' \<and>
               map_option map_of (dict_at s'' d2) = Some (get_tags_from_instance inst))) \<and>
         (\<exists>out s'. st_list_instances_without_tag rx s f ra = Some (out, s') \<and>
            take (length s) s' = s \<and>
            agrees s' out (list_instances_without_tag rx tf resp) \<and>
            (\<exists>out2 s''. st_list_instances_without_tag rx s' f ra = Some (out2, s'') \<and>
               take (length s') s'' = s' \<and>
               agrees s'' out2 (list_instances_without_tag rx tf resp)))"
proof
  from st_get_tags_from_instance_frame [OF assms(1)] obtain d s' where
    1: "st_get_tags_from_instance s a = Some (d, s')" "take (length s) s' = s"
       "map_option map_of (dict_at s' d) = Some (get_tags_from_instance inst)" by blast
  from 1(2) have "keeps s s'" by (rule keeps_prefix)
  then have "instance_at s' a = Some inst" using assms(1) by (rule keeps_instance_at)
  from st_get_tags_from_instance_frame [OF this] 1
  show "\<exists>d s'. st_get_tags_from_instance s a = Some (d, s') \<and>
            take (length s) s' = s \<and>
            map_option map_of (dict_at s' d) = Some (get_tags_from_instance inst) \<and>
            (\<exists>d2 s''. st_get_tags_from_instance s' a = Some (d2, s'') \<and>
               take (length s') s'' = s' \<and>
               map_option map_of (dict_at s'' d2) = Some (get_tags_from_instance inst))"
    by blast
next
  from st_list_instances_without_tag_refines [OF assms(2,3), of rx] obtain out s' where
    1: "st_list_instances_without_tag rx s f ra = Some (out, s')" "take (length s) s' = s"
       "agrees s' out (list_instances_without_tag rx tf resp)" by blast
  from 1(2) have k: "keeps s s'" by (rule keeps_prefix)
  have f': "dict_at s' f = Some tf" using k assms(2) by (rule keeps_dict_at)
  have resp': "response_at s' ra = Some resp" using k assms(3) by (rule keeps_response_at)
  from st_list_instances_without_tag_refines [OF f' resp', of rx] 1
  show "\<exists>out s'. st_list_instances_without_tag rx s f ra = Some (out, s') \<and>
            take (length s) s' = s \<and>
            agrees s' out (list_instances_without_tag rx tf resp) \<and>
            (\<exists>out2 s''. st_list_instances_without_tag rx s' f ra = Some (out2, s'') \<and>
               take (length s') s'' = s' \<and>
               agrees s'' out2 (list_instances_without_tag rx tf resp))" by blast
qed

theorem calls_are_pure_and_deterministic_witness:
  "instance_at sample_store 4 = Some inst_staging \<and>
   dict_at sample_store 0 = Some env_filter \<and>
   response_at sample_store 15 = Some store_response \<and>
   (\<exists>d s'. st_get_tags_from_instance sample_store 4 = Some (d, s') \<and>
      take (length sample_store) s' = sample_store \<and>
      map_option map_of (dict_at s' d) = Some (get_tags_from_instance inst_staging)) \<and>
   (\<exists>out s'. st_list_instances_without_tag frag_re sample_store 0 15 = Some (out, s') \<and>
      take (length sample_store) s' = sample_store \<and>
      agrees s' out (list_instances_without_tag frag_re env_filter store_response)) \<and>
   map_option fst (st_list_instances_without_tag frag_re sample_store 0 15) = Some (Inr 16) \<and>
   Option.bind (st_list_instances_without_tag frag_re sample_store 0 15)
     (\<lambda>(out, s'). result_at s' 16) =
     Some [[(''InstanceId'', PyStr ''i-0001''), (''Name'', PyStr ''web-1'')],
           [(''InstanceId'', PyStr ''i-0003''), (''Name'', PyStr [])]]"
proof -
  have i: "instance_at sample_store 4 = Some inst_staging" by code_simp
  have f: "dict_at sample_store 0 = Some env_filter" by code_simp
  have r: "response_at sample_store 15 = Some store_response" by code_simp
  have o: "map_option fst (st_list_instances_without_tag frag_re sample_store 0 15) =
             Some (Inr 16)" by code_simp
  have v: "Option.bind (st_list_instances_without_tag frag_re sample_store 0 15)
     (\<lambda>(out, s'). result_at s' 16) =
     Some [[(''InstanceId'', PyStr ''i-0001''), (''Name'', PyStr ''web-1'')],
           [(''InstanceId'', PyStr ''i-0003''), (''Name'', PyStr [])]]" by code_simp
  from calls_are_pure_and_deterministic [OF i f r, of frag_re] i f r o v
  show ?thesis by blast
qed

end
